theory Spec2Isabelle
  imports Main "HOL-Library.Word" "HOL-Library.Multiset"
begin

unbundle bit_operations_syntax

section \<open>Address-environment region utilities (arch/arm/src/armv7-a/arm_addrenv_utils.c)\<close>

subsection \<open>Machine types and configuration constants\<close>

text \<open>
  ARMv7-A is a 32-bit architecture: \<open>uintptr_t\<close>, \<open>size_t\<close>, \<open>uint32_t\<close> and
  \<open>unsigned int\<close> are all 32-bit words whose arithmetic wraps around.
\<close>

type_synonym uintptr_t = "32 word"
type_synonym uint32_t = "32 word"
type_synonym size_t = "32 word"
type_synonym uint = "32 word"

text \<open>
  Modelled from the spec: the configuration macros \<open>MM_PGSHIFT\<close>, \<open>MM_PGSIZE\<close>,
  \<open>MM_PGMASK\<close>, \<open>ENTRIES_PER_L2TABLE\<close>, \<open>SECTION_SIZE\<close> and \<open>PTE_SMALL_PADDR_MASK\<close>
  are declared in headers (pgalloc.h, mmu.h) that are not part of the sources at hand.
  The spec fixes their relations (one leaf table covers \<open>SECTION_SIZE\<close>, that is
  \<open>ENTRIES_PER_L2TABLE\<close> pages; the source's comment says one section is \<open>1 << 20\<close>
  bytes; decoding masks out the flag bits). The values are those of the ARMv7-A
  small-page layout: 4 KiB pages, 256 entries per leaf table, 1 MiB sections.
\<close>

definition MM_PGSHIFT :: nat where
  "MM_PGSHIFT = 12"

definition MM_PGSIZE :: "32 word" where
  "MM_PGSIZE = 4096"

definition MM_PGMASK :: "32 word" where
  "MM_PGMASK = 4095"

definition ENTRIES_PER_L2TABLE :: nat where
  "ENTRIES_PER_L2TABLE = 256"

definition SECTION_SIZE :: "32 word" where
  "SECTION_SIZE = 1048576"

definition PTE_SMALL_PADDR_MASK :: "32 word" where
  "PTE_SMALL_PADDR_MASK = 0xfffff000"

definition E2BIG :: int where
  "E2BIG = 7"

definition ENOMEM :: int where
  "ENOMEM = 12"

definition INT_MAX :: nat where
  "INT_MAX = 2147483647"

text \<open>
  Modelled from the spec: \<open>MM_NPAGES\<close> (pgalloc.h, not part of the sources at hand) is
  the requested page count \<open>ceil(regionsize / pagesize)\<close>. The ceiling of a 32-bit size
  is at most \<open>2^20\<close>, so it fits the \<open>unsigned int\<close> it is assigned to.
\<close>

definition MM_NPAGES :: "size_t \<Rightarrow> uint" where
  "MM_NPAGES sz = of_nat ((unat sz + 4095) div 4096)"

text \<open>
  Modelled from the spec: \<open>MM_ISALIGNED\<close> (pgalloc.h) tests page alignment, the
  condition of the source's debug assertion on a freshly allocated leaf table.
\<close>

definition MM_ISALIGNED :: "uintptr_t \<Rightarrow> bool" where
  "MM_ISALIGNED a \<longleftrightarrow> a AND MM_PGMASK = 0"

subsection \<open>Observable events and the machine state\<close>

text \<open>
  The calls the two functions make to their collaborators (page source, critical
  section, cache maintenance, leaf-table writes) and their accesses to the caller's
  table list are recorded, in program order, in an event log.
\<close>

datatype event =
    PgAlloc uintptr_t
  | PgFree uintptr_t
  | ListRead nat
  | ListWrite nat uintptr_t
  | EnterCritical
  | LeaveCritical
  | Memset uintptr_t
  | SetL2Entry uintptr_t uintptr_t uintptr_t uint32_t
  | FlushDcache uintptr_t

text \<open>
  \<open>pool\<close> is what the physical page source will answer to the coming \<open>mm_pgalloc(1)\<close>
  calls, in order (an exhausted source answers 0); \<open>mem\<close> holds the contents of the
  leaf tables, addressed by the table's page and the entry index; \<open>log\<close> is the
  event log.
\<close>

record state =
  pool :: "uintptr_t list"
  mem :: "uintptr_t \<Rightarrow> nat \<Rightarrow> uint32_t"
  log :: "event list"

text \<open>Undefined behaviour and failed debug assertions end a run with a fault.\<close>

datatype fault = OutOfBounds | SignedOverflow | AssertionFailed

definition emit :: "event \<Rightarrow> state \<Rightarrow> state" where
  "emit e s = s\<lparr>log := log s @ [e]\<rparr>"

subsection \<open>Collaborators\<close>

text \<open>
  Modelled from the spec: the physical page source (\<open>mm_pgalloc\<close>, \<open>mm_pgfree\<close>) is an
  external collaborator: it hands out single page frames and returns the null sentinel
  on exhaustion; returning a page cannot fail.
\<close>

definition mm_pgalloc :: "state \<Rightarrow> uintptr_t \<times> state" where
  "mm_pgalloc s =
     (case pool s of
        [] \<Rightarrow> (0, emit (PgAlloc 0) s)
      | p # ps \<Rightarrow> (p, emit (PgAlloc p) (s\<lparr>pool := ps\<rparr>)))"

definition mm_pgfree :: "uintptr_t \<Rightarrow> state \<Rightarrow> state" where
  "mm_pgfree paddr s = emit (PgFree paddr) s"

text \<open>
  Modelled from the spec: the critical-section and cache-maintenance primitives are
  external collaborators which the functions only invoke.
\<close>

definition enter_critical_section :: "state \<Rightarrow> state" where
  "enter_critical_section s = emit EnterCritical s"

definition leave_critical_section :: "state \<Rightarrow> state" where
  "leave_critical_section s = emit LeaveCritical s"

definition up_flush_dcache :: "uintptr_t \<Rightarrow> state \<Rightarrow> state" where
  "up_flush_dcache l2table s = emit (FlushDcache l2table) s"

text \<open>
  Modelled from the spec: \<open>arm_pgvaddr\<close> (pgalloc.h) maps the physical address of a page
  to the kernel virtual address under which its contents are accessed. The mapping is
  one-to-one, and \<open>mem\<close> is addressed by the physical page.
\<close>

definition arm_pgvaddr :: "uintptr_t \<Rightarrow> uintptr_t" where
  "arm_pgvaddr paddr = paddr"

text \<open>\<open>memset(l2table, 0, ENTRIES_PER_L2TABLE * sizeof(uint32_t))\<close>\<close>

definition memset_l2table :: "uintptr_t \<Rightarrow> state \<Rightarrow> state" where
  "memset_l2table l2table s =
     emit (Memset l2table)
       (s\<lparr>mem := (mem s)(l2table := (\<lambda>n. if n < ENTRIES_PER_L2TABLE then 0 else mem s l2table n))\<rparr>)"

subsection \<open>Table entry codec\<close>

text \<open>
  Modelled from the spec: \<open>set_l2_entry\<close> (pgalloc.h, not part of the sources at hand)
  encodes a physical page address and the access flags into one leaf-table entry and
  stores it in the entry of the current virtual offset, i.e. the index of the page of
  \<open>vaddr\<close> within its section. Decoding is the masking with \<open>PTE_SMALL_PADDR_MASK\<close> that
  the destroy path applies.
\<close>

definition l2_encode :: "uintptr_t \<Rightarrow> uint32_t \<Rightarrow> uint32_t" where
  "l2_encode paddr mmuflags = paddr OR mmuflags"

definition l2_decode :: "uint32_t \<Rightarrow> uintptr_t" where
  "l2_decode entry = entry AND PTE_SMALL_PADDR_MASK"

definition l2_index :: "uintptr_t \<Rightarrow> nat" where
  "l2_index vaddr = (unat vaddr div 4096) mod ENTRIES_PER_L2TABLE"

definition set_l2_entry :: "uintptr_t \<Rightarrow> uintptr_t \<Rightarrow> uintptr_t \<Rightarrow> uint32_t \<Rightarrow> state \<Rightarrow> state" where
  "set_l2_entry l2table paddr vaddr mmuflags s =
     emit (SetL2Entry l2table paddr vaddr mmuflags)
       (s\<lparr>mem := (mem s)(l2table := (mem s l2table)(l2_index vaddr := l2_encode paddr mmuflags))\<rparr>)"

text \<open>
  Modelled from the spec: a valid flag set occupies only the bits that decoding masks
  out (the flag bits of an entry).
\<close>

definition valid_mmuflags :: "uint32_t \<Rightarrow> bool" where
  "valid_mmuflags mmuflags \<longleftrightarrow> mmuflags AND PTE_SMALL_PADDR_MASK = 0"

subsection \<open>arm_addrenv_create_region\<close>

text \<open>
  The inner loop (lines 124-141): \<open>for (j = 0; j < ENTRIES_PER_L2TABLE && nmapped <
  regionsize; j++)\<close>. The result says whether the loop ran to its end (\<open>False\<close>: the page
  source returned null), with the values of \<open>nmapped\<close> and \<open>vaddr\<close>. The counter \<open>j\<close>
  stays below 256 and cannot overflow; \<open>nmapped\<close> and \<open>vaddr\<close> are words.
\<close>

function fill_l2table ::
  "uintptr_t \<Rightarrow> uint32_t \<Rightarrow> size_t \<Rightarrow> nat \<Rightarrow> size_t \<Rightarrow> uintptr_t \<Rightarrow> state
     \<Rightarrow> bool \<times> size_t \<times> uintptr_t \<times> state" where
  "fill_l2table l2table mmuflags regionsize j nmapped vaddr s =
     (if j < ENTRIES_PER_L2TABLE \<and> nmapped < regionsize then
        (case mm_pgalloc s of (paddr, s1) \<Rightarrow>
           if paddr = 0 then (False, nmapped, vaddr, s1)
           else fill_l2table l2table mmuflags regionsize (j + 1)
                  (nmapped + MM_PGSIZE) (vaddr + MM_PGSIZE)
                  (set_l2_entry l2table paddr vaddr mmuflags s1))
      else (True, nmapped, vaddr, s))"
  by pat_completeness auto
termination
  by (relation "measure (\<lambda>(l2table, mmuflags, regionsize, j, nmapped, vaddr, s).
        ENTRIES_PER_L2TABLE - j)") auto

declare fill_l2table.simps [simp del]

text \<open>
  The outer loop (lines 98-152): \<open>for (i = 0; i < nlist; i++)\<close>. \<open>i\<close> and \<open>nlist\<close> are
  unsigned and \<open>i < nlist\<close>, so \<open>i++\<close> cannot wrap. The result says whether all tables
  were built (\<open>False\<close>: return \<open>-ENOMEM\<close>). Writing \<open>list[i]\<close> outside the caller's array
  is undefined behaviour; the debug assertion fails on a misaligned table page.
\<close>

function create_loop ::
  "uintptr_t list \<Rightarrow> uint32_t \<Rightarrow> size_t \<Rightarrow> nat \<Rightarrow> nat \<Rightarrow> size_t \<Rightarrow> uintptr_t \<Rightarrow> state
     \<Rightarrow> fault + (bool \<times> uintptr_t list \<times> state)" where
  "create_loop list mmuflags regionsize nlist i nmapped vaddr s =
     (if i < nlist then
        (case mm_pgalloc s of (paddr, s1) \<Rightarrow>
           if paddr = 0 then Inr (False, list, s1)
           else if \<not> MM_ISALIGNED paddr then Inl AssertionFailed
           else if \<not> i < length list then Inl OutOfBounds
           else
             (let list1 = list[i := paddr];
                  s2 = emit (ListWrite i paddr) s1;
                  s3 = enter_critical_section s2;
                  l2table = arm_pgvaddr paddr;
                  s4 = memset_l2table l2table s3
              in case fill_l2table l2table mmuflags regionsize 0 nmapped vaddr s4 of
                   (ok, nmapped', vaddr', s5) \<Rightarrow>
                     if \<not> ok then Inr (False, list1, leave_critical_section s5)
                     else create_loop list1 mmuflags regionsize nlist (i + 1) nmapped' vaddr'
                            (leave_critical_section (up_flush_dcache l2table s5))))
      else Inr (True, list, s))"
  by pat_completeness auto
termination
  by (relation "measure (\<lambda>(list, mmuflags, regionsize, nlist, i, nmapped, vaddr, s).
        nlist - i)") auto

declare create_loop.simps [simp del]

text \<open>
  \<open>arm_addrenv_create_region\<close>: the result is the returned \<open>int\<close> (the page count, or a
  negated errno value), the caller's table list and the state.
\<close>

definition create_region ::
  "uintptr_t list \<Rightarrow> uint \<Rightarrow> uintptr_t \<Rightarrow> size_t \<Rightarrow> uint32_t \<Rightarrow> state
     \<Rightarrow> fault + (int \<times> uintptr_t list \<times> state)" where
  "create_region list listlen vaddr regionsize mmuflags s =
     (let npages = MM_NPAGES regionsize in
      if npages > push_bit (20 - MM_PGSHIFT) listlen then Inr (- E2BIG, list, s)
      else
        (let nlist = (npages + of_nat ENTRIES_PER_L2TABLE - 1) div of_nat ENTRIES_PER_L2TABLE
         in case create_loop list mmuflags regionsize (unat nlist) 0 0 vaddr s of
              Inl f \<Rightarrow> Inl f
            | Inr (ok, list', s') \<Rightarrow> Inr (if ok then sint npages else - ENOMEM, list', s')))"

subsection \<open>arm_addrenv_destroy_region\<close>

text \<open>
  The inner loop (lines 200-208): \<open>for (j = 0; j < ENTRIES_PER_L2TABLE; j++)\<close> reads the
  entries of the leaf table in turn and returns the page of every non-zero entry.
\<close>

function free_l2_pages :: "uintptr_t \<Rightarrow> nat \<Rightarrow> state \<Rightarrow> state" where
  "free_l2_pages l2table j s =
     (if j < ENTRIES_PER_L2TABLE then
        (let paddr = mem s l2table j
         in free_l2_pages l2table (j + 1)
              (if paddr \<noteq> 0 then mm_pgfree (paddr AND PTE_SMALL_PADDR_MASK) s else s))
      else s)"
  by pat_completeness auto
termination
  by (relation "measure (\<lambda>(l2table, j, s). ENTRIES_PER_L2TABLE - j)") auto

declare free_l2_pages.simps [simp del]

text \<open>
  The outer loop (lines 176-218): \<open>for (i = 0; i < listlen; vaddr += SECTION_SIZE, i++)\<close>.
  The counter \<open>i\<close> is a signed \<open>int\<close>; it is never negative, so the comparison with the
  unsigned \<open>listlen\<close> compares its value, and \<open>i++\<close> at \<open>INT_MAX\<close> is a signed overflow
  (undefined behaviour). Reading \<open>list[i]\<close> outside the caller's array is undefined too.
\<close>

function destroy_loop ::
  "uintptr_t list \<Rightarrow> uint \<Rightarrow> bool \<Rightarrow> nat \<Rightarrow> uintptr_t \<Rightarrow> state
     \<Rightarrow> fault + (uintptr_t list \<times> state)" where
  "destroy_loop list listlen keep i vaddr s =
     (if i < unat listlen then
        (if \<not> i < length list then Inl OutOfBounds
         else
           (let paddr = list ! i;
                s0 = emit (ListRead i) s;
                (list1, s1) =
                  (if paddr \<noteq> 0 then
                     (let s2 = enter_critical_section s0;
                          l2table = arm_pgvaddr paddr;
                          s3 = (if \<not> keep then free_l2_pages l2table 0 s2 else s2);
                          s4 = leave_critical_section s3;
                          s5 = mm_pgfree (list ! i) s4
                      in (list[i := 0], emit (ListWrite i 0) s5))
                   else (list, s0))
            in if i = INT_MAX then Inl SignedOverflow
               else destroy_loop list1 listlen keep (i + 1) (vaddr + SECTION_SIZE) s1))
      else Inr (list, s))"
  by pat_completeness auto
termination
  by (relation "measure (\<lambda>(list, listlen, keep, i, vaddr, s). unat listlen - i)") auto

declare destroy_loop.simps [simp del]

definition destroy_region ::
  "uintptr_t list \<Rightarrow> uint \<Rightarrow> uintptr_t \<Rightarrow> bool \<Rightarrow> state \<Rightarrow> fault + (uintptr_t list \<times> state)" where
  "destroy_region list listlen vaddr keep s = destroy_loop list listlen keep 0 vaddr s"

subsection \<open>Reading the event log\<close>

text \<open>The pages returned to the page source, in the order of the calls.\<close>

fun pgfree_of :: "event \<Rightarrow> uintptr_t list" where
  "pgfree_of (PgFree p) = [p]"
| "pgfree_of _ = []"

definition frees :: "event list \<Rightarrow> uintptr_t list" where
  "frees evs = concat (map pgfree_of evs)"

text \<open>The answers of the page source, in the order of the calls (0: no page).\<close>

fun pgalloc_of :: "event \<Rightarrow> uintptr_t list" where
  "pgalloc_of (PgAlloc p) = [p]"
| "pgalloc_of _ = []"

definition allocs :: "event list \<Rightarrow> uintptr_t list" where
  "allocs evs = concat (map pgalloc_of evs)"

text \<open>The table-list slots read, and the slots written with the value stored.\<close>

fun list_read_of :: "event \<Rightarrow> nat list" where
  "list_read_of (ListRead i) = [i]"
| "list_read_of _ = []"

definition list_reads :: "event list \<Rightarrow> nat list" where
  "list_reads evs = concat (map list_read_of evs)"

fun list_write_of :: "event \<Rightarrow> (nat \<times> uintptr_t) list" where
  "list_write_of (ListWrite i p) = [(i, p)]"
| "list_write_of _ = []"

definition list_writes :: "event list \<Rightarrow> (nat \<times> uintptr_t) list" where
  "list_writes evs = concat (map list_write_of evs)"

text \<open>The data pages mapped by \<open>set_l2_entry\<close>, and the virtual addresses they are mapped at.\<close>

fun mapped_page_of :: "event \<Rightarrow> uintptr_t list" where
  "mapped_page_of (SetL2Entry l2table paddr vaddr mmuflags) = [paddr]"
| "mapped_page_of _ = []"

definition mapped_pages :: "event list \<Rightarrow> uintptr_t list" where
  "mapped_pages evs = concat (map mapped_page_of evs)"

fun mapped_vaddr_of :: "event \<Rightarrow> uintptr_t list" where
  "mapped_vaddr_of (SetL2Entry l2table paddr vaddr mmuflags) = [vaddr]"
| "mapped_vaddr_of _ = []"

definition mapped_vaddrs :: "event list \<Rightarrow> uintptr_t list" where
  "mapped_vaddrs evs = concat (map mapped_vaddr_of evs)"

text \<open>
  The pages a leaf table refers to: the decoded non-zero entries, in index order. These
  are the pages that the destroy path returns for the table when it does not keep them.
\<close>

definition l2_pages :: "(uintptr_t \<Rightarrow> nat \<Rightarrow> uint32_t) \<Rightarrow> uintptr_t \<Rightarrow> nat \<Rightarrow> uintptr_t list" where
  "l2_pages m l2table j =
     map l2_decode (filter (\<lambda>e. e \<noteq> 0) (map (m l2table) [j..<ENTRIES_PER_L2TABLE]))"

text \<open>What the destroy path returns for one slot, and for a whole table list.\<close>

definition slot_frees :: "(uintptr_t \<Rightarrow> nat \<Rightarrow> uint32_t) \<Rightarrow> bool \<Rightarrow> uintptr_t \<Rightarrow> uintptr_t list" where
  "slot_frees m keep paddr =
     (if paddr = 0 then [] else (if keep then [] else l2_pages m paddr 0) @ [paddr])"

definition list_frees :: "(uintptr_t \<Rightarrow> nat \<Rightarrow> uint32_t) \<Rightarrow> bool \<Rightarrow> uintptr_t list \<Rightarrow> uintptr_t list" where
  "list_frees m keep list = concat (map (slot_frees m keep) list)"

subsection \<open>The order of construction\<close>

text \<open>
  The order in which \<open>arm_addrenv_create_region\<close> builds one leaf table, as a recogniser
  of its event log. For slot \<open>i\<close>: the page of the table is allocated (a null answer ends
  the call); its address is stored in \<open>list[i]\<close>; the critical section is entered; the
  table is zeroed; then pages are allocated and mapped, one entry after the other (a null
  answer leaves the critical section and ends the call); the table is flushed; the
  critical section is left, and slot \<open>i + 1\<close> is next.
\<close>

datatype phase =
    Idle nat
  | Allocated nat uintptr_t
  | Published nat uintptr_t
  | Entered nat uintptr_t
  | Filling nat uintptr_t
  | Mapping nat uintptr_t uintptr_t
  | Flushed nat uintptr_t
  | Aborting
  | Returned

fun build_step :: "phase \<Rightarrow> event \<Rightarrow> phase option" where
  "build_step (Idle i) (PgAlloc p) = Some (if p = 0 then Returned else Allocated i p)"
| "build_step (Allocated i p) (ListWrite n q) =
     (if n = i \<and> q = p then Some (Published i p) else None)"
| "build_step (Published i p) EnterCritical = Some (Entered i p)"
| "build_step (Entered i p) (Memset t) = (if t = p then Some (Filling i p) else None)"
| "build_step (Filling i p) (PgAlloc q) = Some (if q = 0 then Aborting else Mapping i p q)"
| "build_step (Mapping i p q) (SetL2Entry t q' v f) =
     (if t = p \<and> q' = q then Some (Filling i p) else None)"
| "build_step (Filling i p) (FlushDcache t) = (if t = p then Some (Flushed i p) else None)"
| "build_step (Flushed i p) LeaveCritical = Some (Idle (Suc i))"
| "build_step Aborting LeaveCritical = Some Returned"
| "build_step _ _ = None"

fun build_run :: "phase \<Rightarrow> event list \<Rightarrow> phase option" where
  "build_run ph [] = Some ph"
| "build_run ph (e # es) =
     (case build_step ph e of None \<Rightarrow> None | Some ph' \<Rightarrow> build_run ph' es)"

text \<open>
  The order the spec words: every address written into the table list is the address of
  a table that has been flushed before (\<open>flushed\<close> collects the tables flushed so far).
\<close>

fun published_after_flush :: "uintptr_t list \<Rightarrow> event list \<Rightarrow> bool" where
  "published_after_flush flushed [] = True"
| "published_after_flush flushed (FlushDcache t # es) = published_after_flush (t # flushed) es"
| "published_after_flush flushed (ListWrite i p # es) =
     (p \<in> set flushed \<and> published_after_flush flushed es)"
| "published_after_flush flushed (e # es) = published_after_flush flushed es"

section \<open>Arithmetic of the configuration\<close>

lemma unat_MM_NPAGES: "unat (MM_NPAGES sz) = (unat sz + 4095) div 4096"
proof -
  have "unat sz < 2 ^ 32"
    using unsigned_less [of sz] by simp
  then have "(unat sz + 4095) div 4096 < 2 ^ 32"
    by simp
  then show ?thesis
    unfolding MM_NPAGES_def by (simp add: unat_of_nat)
qed

lemma unat_section_pages_le:
  "unat (push_bit (20 - MM_PGSHIFT) (listlen :: 32 word)) \<le> unat listlen * 256"
proof -
  have "unat (push_bit 8 listlen) = take_bit 32 (push_bit 8 (unat listlen))"
    by (simp add: unsigned_push_bit_eq)
  also have "\<dots> \<le> push_bit 8 (unat listlen)"
    by (rule take_bit_nat_less_eq_self)
  finally show ?thesis
    by (simp add: MM_PGSHIFT_def push_bit_eq_mult)
qed

section \<open>The table entry codec\<close>

lemma aligned_paddr_mask:
  assumes "p AND (4095::32 word) = 0"
  shows "p AND 4294963200 = p"
proof -
  have h: "(4294963200::32 word) = NOT 4095"
    by simp
  have "p = p AND (4095 OR NOT 4095)"
    by simp
  also have "\<dots> = (p AND 4095) OR (p AND NOT 4095)"
    by (rule bit.conj_disj_distrib)
  also have "\<dots> = p AND NOT 4095"
    by (simp only: assms or.left_neutral)
  finally have "p AND NOT 4095 = p"
    by simp
  then show ?thesis
    by (simp only: h)
qed

lemma l2_decode_encode:
  assumes "MM_ISALIGNED p" and "valid_mmuflags f"
  shows "l2_decode (l2_encode p f) = p"
  using assms
  unfolding MM_ISALIGNED_def valid_mmuflags_def l2_decode_def l2_encode_def
    MM_PGMASK_def PTE_SMALL_PADDR_MASK_def
  by (simp add: bit.conj_disj_distrib2 aligned_paddr_mask)

text \<open>
  C7. The codec round-trips: for a page-aligned physical address and a valid flag set,
  masking the encoded entry with the physical-address mask gives the address back.
  Encoding is a pure function of the address and the flags; storing the entry with
  \<open>set_l2_entry\<close> changes the addressed entry of the leaf table and nothing else (no other
  entry, and not the page source).
\<close>

theorem l2_entry_roundtrip:
  assumes "MM_ISALIGNED p" and "valid_mmuflags f"
  shows "l2_decode (l2_encode p f) = p
    \<and> l2_decode (mem (set_l2_entry t p v f s) t (l2_index v)) = p
    \<and> pool (set_l2_entry t p v f s) = pool s
    \<and> (\<forall>t' n. (t', n) \<noteq> (t, l2_index v) \<longrightarrow> mem (set_l2_entry t p v f s) t' n = mem s t' n)"
proof -
  have rt: "l2_decode (l2_encode p f) = p"
    using assms by (rule l2_decode_encode)
  show ?thesis
    using rt by (simp add: set_l2_entry_def emit_def)
qed

theorem l2_entry_roundtrip_witness:
  "l2_decode (l2_encode 0x8000 0x3f) = 0x8000
    \<and> l2_decode (mem (set_l2_entry 0x1000 0x8000 0x5000 0x3f
          \<lparr>pool = [], mem = (\<lambda>_ _. 0), log = []\<rparr>) 0x1000 (l2_index 0x5000)) = 0x8000"
  using l2_entry_roundtrip [of "0x8000" "0x3f" "0x1000" "0x5000"
      "\<lparr>pool = [], mem = (\<lambda>_ _. 0), log = []\<rparr>"]
  by (simp add: MM_ISALIGNED_def valid_mmuflags_def MM_PGMASK_def PTE_SMALL_PADDR_MASK_def)

section \<open>The capacity check of \<open>arm_addrenv_create_region\<close>\<close>

text \<open>
  C2. If the requested page count \<open>ceil(regionsize / pagesize)\<close> exceeds the page
  capacity of \<open>listlen\<close> leaf tables, \<open>create_region\<close> returns \<open>-E2BIG\<close>; the page source
  is not asked for a page (the state, with its pool and its event log, is the one the
  call started in) and the table list is returned unchanged.
\<close>

theorem create_region_capacity_error:
  assumes "unat listlen * ENTRIES_PER_L2TABLE < (unat regionsize + 4095) div 4096"
  shows "create_region list listlen vaddr regionsize mmuflags s = Inr (- E2BIG, list, s)"
proof -
  have "unat (push_bit (20 - MM_PGSHIFT) listlen) < unat (MM_NPAGES regionsize)"
    using assms unat_section_pages_le [of listlen]
    by (simp add: unat_MM_NPAGES ENTRIES_PER_L2TABLE_def)
  then have "push_bit (20 - MM_PGSHIFT) listlen < MM_NPAGES regionsize"
    by (simp add: word_less_nat_alt)
  then show ?thesis
    by (simp add: create_region_def)
qed

theorem create_region_capacity_error_witness:
  "create_region [0] 1 0x40000000 0x200000 0x3f \<lparr>pool = [0x1000], mem = (\<lambda>_ _. 0), log = []\<rparr>
     = Inr (- E2BIG, [0], \<lparr>pool = [0x1000], mem = (\<lambda>_ _. 0), log = []\<rparr>)"
  using create_region_capacity_error [of 1 "0x200000" "[0]" "0x40000000" "0x3f"
      "\<lparr>pool = [0x1000], mem = (\<lambda>_ _. 0), log = []\<rparr>"]
  by (simp add: ENTRIES_PER_L2TABLE_def)

lemma npages_le: "(unat (sz :: 32 word) + 4095) div 4096 \<le> 1048576"
proof -
  have "unat sz < 2 ^ 32"
    using unsigned_less [of sz] by simp
  then show ?thesis
    by simp
qed

lemma unat_nlist:
  "unat ((MM_NPAGES sz + of_nat ENTRIES_PER_L2TABLE - 1) div of_nat ENTRIES_PER_L2TABLE)
     = ((unat sz + 4095) div 4096 + 255) div 256"
proof -
  let ?N = "(unat sz + 4095) div 4096"
  have "unat (MM_NPAGES sz) + unat (255 :: 32 word) < 2 ^ 32"
    using npages_le [of sz] by (simp add: unat_MM_NPAGES)
  then have "unat (MM_NPAGES sz + 255) = ?N + 255"
    by (simp add: unat_add_lem [THEN iffD1] unat_MM_NPAGES)
  then have "unat (255 + MM_NPAGES sz) = ?N + 255"
    by (simp add: add.commute)
  then show ?thesis
    by (simp add: unat_div ENTRIES_PER_L2TABLE_def)
qed

lemma sint_MM_NPAGES: "sint (MM_NPAGES sz) = int ((unat sz + 4095) div 4096)"
proof -
  have "int ((unat sz + 4095) div 4096) < 2 ^ 31"
    using npages_le [of sz] by simp
  then show ?thesis
    unfolding MM_NPAGES_def
    by (simp add: signed_of_nat signed_take_bit_int_eq_self)
qed






lemma nlist_less_iff: "i < (n + 255) div 256 \<longleftrightarrow> 256 * i < (n::nat)"
proof -
  have "i < (n + 255) div 256 \<longleftrightarrow> Suc i \<le> (n + 255) div 256"
    by (simp add: Suc_le_eq)
  also have "\<dots> \<longleftrightarrow> Suc i * 256 \<le> n + 255"
    by (simp only: less_eq_div_iff_mult_less_eq zero_less_numeral)
  also have "\<dots> \<longleftrightarrow> 256 * i < n"
    by (simp add: Suc_le_eq mult.commute)
  finally show ?thesis .
qed

lemma nlist_le: "n \<le> 1048576 \<Longrightarrow> (n + 255) div 256 \<le> (4096::nat)"
  by simp

section \<open>Basic facts about the state and the event log\<close>

lemma frees_simps [simp]:
  "frees [] = []" "frees (e # evs) = pgfree_of e @ frees evs" "frees (xs @ ys) = frees xs @ frees ys"
  by (simp_all add: frees_def)

lemma allocs_simps [simp]:
  "allocs [] = []" "allocs (e # evs) = pgalloc_of e @ allocs evs" "allocs (xs @ ys) = allocs xs @ allocs ys"
  by (simp_all add: allocs_def)

lemma list_reads_simps [simp]:
  "list_reads [] = []" "list_reads (e # evs) = list_read_of e @ list_reads evs"
  "list_reads (xs @ ys) = list_reads xs @ list_reads ys"
  by (simp_all add: list_reads_def)

lemma list_writes_simps [simp]:
  "list_writes [] = []" "list_writes (e # evs) = list_write_of e @ list_writes evs"
  "list_writes (xs @ ys) = list_writes xs @ list_writes ys"
  by (simp_all add: list_writes_def)

lemma mapped_pages_simps [simp]:
  "mapped_pages [] = []" "mapped_pages (e # evs) = mapped_page_of e @ mapped_pages evs"
  "mapped_pages (xs @ ys) = mapped_pages xs @ mapped_pages ys"
  by (simp_all add: mapped_pages_def)

lemma mapped_vaddrs_simps [simp]:
  "mapped_vaddrs [] = []" "mapped_vaddrs (e # evs) = mapped_vaddr_of e @ mapped_vaddrs evs"
  "mapped_vaddrs (xs @ ys) = mapped_vaddrs xs @ mapped_vaddrs ys"
  by (simp_all add: mapped_vaddrs_def)

lemma emit_simps [simp]:
  "log (emit e s) = log s @ [e]" "pool (emit e s) = pool s" "mem (emit e s) = mem s"
  by (simp_all add: emit_def)

lemma mm_pgfree_simps [simp]:
  "log (mm_pgfree p s) = log s @ [PgFree p]" "pool (mm_pgfree p s) = pool s" "mem (mm_pgfree p s) = mem s"
  by (simp_all add: mm_pgfree_def)

lemma critical_simps [simp]:
  "log (enter_critical_section s) = log s @ [EnterCritical]"
  "pool (enter_critical_section s) = pool s" "mem (enter_critical_section s) = mem s"
  "log (leave_critical_section s) = log s @ [LeaveCritical]"
  "pool (leave_critical_section s) = pool s" "mem (leave_critical_section s) = mem s"
  by (simp_all add: enter_critical_section_def leave_critical_section_def)

lemma up_flush_dcache_simps [simp]:
  "log (up_flush_dcache t s) = log s @ [FlushDcache t]"
  "pool (up_flush_dcache t s) = pool s" "mem (up_flush_dcache t s) = mem s"
  by (simp_all add: up_flush_dcache_def)

lemma l2_pages_step:
  "j < ENTRIES_PER_L2TABLE \<Longrightarrow>
     l2_pages m t j = (if m t j \<noteq> 0 then [l2_decode (m t j)] else []) @ l2_pages m t (Suc j)"
  by (simp add: l2_pages_def upt_conv_Cons)

lemma l2_pages_end: "\<not> j < ENTRIES_PER_L2TABLE \<Longrightarrow> l2_pages m t j = []"
  by (simp add: l2_pages_def)

lemma free_l2_pages_effect:
  "log (free_l2_pages t j s) = log s @ map PgFree (l2_pages (mem s) t j)
     \<and> mem (free_l2_pages t j s) = mem s \<and> pool (free_l2_pages t j s) = pool s"
proof (induction t j s rule: free_l2_pages.induct)
  case (1 l2table j s)
  show ?case
  proof (cases "j < ENTRIES_PER_L2TABLE")
    case True
    then show ?thesis
      using 1 [OF True refl]
      by (subst (1 2 3) free_l2_pages.simps) (simp add: Let_def l2_pages_step l2_decode_def)
  next
    case False
    then show ?thesis
      by (subst (1 2 3) free_l2_pages.simps) (simp add: l2_pages_end)
  qed
qed

section \<open>The loops of \<open>arm_addrenv_destroy_region\<close>\<close>

lemma destroy_loop_done:
  "\<not> i < unat listlen \<Longrightarrow> destroy_loop list listlen keep i v s = Inr (list, s)"
  by (subst destroy_loop.simps) simp

lemma destroy_loop_out_of_bounds:
  "i < unat listlen \<Longrightarrow> \<not> i < length list \<Longrightarrow> destroy_loop list listlen keep i v s = Inl OutOfBounds"
  by (subst destroy_loop.simps) simp

lemma destroy_loop_overflow:
  "i < unat listlen \<Longrightarrow> i < length list \<Longrightarrow> i = INT_MAX \<Longrightarrow>
     destroy_loop list listlen keep i v s = Inl SignedOverflow"
  by (subst destroy_loop.simps) (simp add: Let_def split: prod.splits)

lemma destroy_loop_null:
  "i < unat listlen \<Longrightarrow> i < length list \<Longrightarrow> i \<noteq> INT_MAX \<Longrightarrow> list ! i = 0 \<Longrightarrow>
     destroy_loop list listlen keep i v s =
       destroy_loop list listlen keep (Suc i) (v + SECTION_SIZE) (emit (ListRead i) s)"
  by (subst destroy_loop.simps) (simp add: Let_def)

lemma destroy_loop_table:
  "i < unat listlen \<Longrightarrow> i < length list \<Longrightarrow> i \<noteq> INT_MAX \<Longrightarrow> list ! i \<noteq> 0 \<Longrightarrow>
     destroy_loop list listlen keep i v s =
       destroy_loop (list[i := 0]) listlen keep (Suc i) (v + SECTION_SIZE)
         (emit (ListWrite i 0) (mm_pgfree (list ! i) (leave_critical_section
            (if keep then enter_critical_section (emit (ListRead i) s)
             else free_l2_pages (list ! i) 0 (enter_critical_section (emit (ListRead i) s))))))"
  by (subst destroy_loop.simps) (simp add: Let_def arm_pgvaddr_def)

lemma list_frees_simps [simp]:
  "list_frees m keep [] = []"
  "list_frees m keep (p # ps) = slot_frees m keep p @ list_frees m keep ps"
  "list_frees m keep (ps @ qs) = list_frees m keep ps @ list_frees m keep qs"
  by (simp_all add: list_frees_def)

lemma frees_map_PgFree [simp]: "frees (map PgFree ps) = ps"
  by (induction ps) simp_all

lemma list_reads_map_PgFree [simp]: "list_reads (map PgFree ps) = []"
  by (induction ps) simp_all

lemma allocs_map_PgFree [simp]: "allocs (map PgFree ps) = []"
  by (induction ps) simp_all

lemma destroy_loop_effect:
  assumes "length list = unat listlen" and "unat listlen \<le> INT_MAX" and "i \<le> unat listlen"
  shows "\<exists>s'. destroy_loop list listlen keep i v s
              = Inr (take i list @ replicate (length list - i) 0, s')
     \<and> frees (log s') = frees (log s) @ list_frees (mem s) keep (drop i list)
     \<and> list_reads (log s') = list_reads (log s) @ [i..<unat listlen]
     \<and> allocs (log s') = allocs (log s)
     \<and> mem s' = mem s \<and> pool s' = pool s"
  using assms
proof (induction "unat listlen - i" arbitrary: i list v s)
  case 0
  then have "\<not> i < unat listlen" and "length list - i = 0" and "drop i list = []"
    by simp_all
  then show ?case
    using 0 by (simp add: destroy_loop_done)
next
  case (Suc k)
  then have lt: "i < unat listlen" and len: "i < length list" and nmax: "i \<noteq> INT_MAX"
    by simp_all
  have dr: "drop i list = list ! i # drop (Suc i) list"
    using len by (simp add: Cons_nth_drop_Suc)
  have rp: "replicate (length list - i) (0::uintptr_t) = 0 # replicate (length list - Suc i) 0"
    using len by (metis Suc_diff_Suc replicate_Suc)
  have up: "[i..<unat listlen] = i # [Suc i..<unat listlen]"
    using lt by (simp add: upt_conv_Cons)
  show ?case
  proof (cases "list ! i = 0")
    case True
    have k: "k = unat listlen - Suc i"
      using Suc.hyps(2) by simp
    obtain s' where s': "destroy_loop list listlen keep (Suc i) (v + SECTION_SIZE) (emit (ListRead i) s)
          = Inr (take (Suc i) list @ replicate (length list - Suc i) 0, s')"
        "frees (log s') = frees (log (emit (ListRead i) s)) @ list_frees (mem (emit (ListRead i) s)) keep (drop (Suc i) list)"
        "list_reads (log s') = list_reads (log (emit (ListRead i) s)) @ [Suc i..<unat listlen]"
        "allocs (log s') = allocs (log (emit (ListRead i) s))"
        "mem s' = mem (emit (ListRead i) s)" "pool s' = pool (emit (ListRead i) s)"
      using Suc.hyps(1) [OF k Suc.prems(1) Suc.prems(2), of "v + SECTION_SIZE" "emit (ListRead i) s"] lt
      by auto
    have tk: "take (Suc i) list = take i list @ [0]"
      using len True by (simp add: take_Suc_conv_app_nth)
    show ?thesis
      using s' True
      by (simp add: destroy_loop_null [OF lt len nmax True] tk rp dr up slot_frees_def)
  next
    case False
    let ?s1 = "emit (ListWrite i 0) (mm_pgfree (list ! i) (leave_critical_section
            (if keep then enter_critical_section (emit (ListRead i) s)
             else free_l2_pages (list ! i) 0 (enter_critical_section (emit (ListRead i) s)))))"
    let ?l1 = "list[i := 0]"
    have k: "k = unat listlen - Suc i"
      using Suc.hyps(2) by simp
    have l1: "length ?l1 = unat listlen"
      using Suc.prems(1) by simp
    obtain s' where s': "destroy_loop ?l1 listlen keep (Suc i) (v + SECTION_SIZE) ?s1
          = Inr (take (Suc i) ?l1 @ replicate (length ?l1 - Suc i) 0, s')"
        "frees (log s') = frees (log ?s1) @ list_frees (mem ?s1) keep (drop (Suc i) ?l1)"
        "list_reads (log s') = list_reads (log ?s1) @ [Suc i..<unat listlen]"
        "allocs (log s') = allocs (log ?s1)"
        "mem s' = mem ?s1" "pool s' = pool ?s1"
      using Suc.hyps(1) [OF k l1 Suc.prems(2), of "v + SECTION_SIZE" ?s1] lt
      by auto
    have tk: "take (Suc i) ?l1 = take i list @ [0]"
      using len by (simp add: take_Suc_conv_app_nth)
    have m1: "mem ?s1 = mem s" "pool ?s1 = pool s"
      by (simp_all add: free_l2_pages_effect)
    have f1: "frees (log ?s1) = frees (log s) @ slot_frees (mem s) keep (list ! i)"
      using False by (simp add: free_l2_pages_effect slot_frees_def)
    have r1: "list_reads (log ?s1) = list_reads (log s) @ [i]"
      by (simp add: free_l2_pages_effect)
    have a1: "allocs (log ?s1) = allocs (log s)"
      by (simp add: free_l2_pages_effect)
    show ?thesis
      unfolding destroy_loop_table [OF lt len nmax False]
      using s'(1) s'(2-6) [unfolded m1 f1 r1 a1] tk rp
      by (simp add: dr up)
  qed
qed

section \<open>Properties of \<open>arm_addrenv_destroy_region\<close>\<close>

lemma destroy_loop_vaddr:
  "destroy_loop list listlen keep i vaddr1 s = destroy_loop list listlen keep i vaddr2 s"
proof (induction "unat listlen - i" arbitrary: i list vaddr1 vaddr2 s)
  case 0
  then show ?case
    by (simp add: destroy_loop_done)
next
  case (Suc k)
  then have lt: "i < unat listlen" and k: "k = unat listlen - Suc i"
    by simp_all
  show ?case
  proof (cases "i < length list")
    case False
    then show ?thesis
      using lt by (simp add: destroy_loop_out_of_bounds)
  next
    case len: True
    show ?thesis
    proof (cases "i = INT_MAX")
      case True
      then show ?thesis
        using lt len by (simp add: destroy_loop_overflow)
    next
      case nmax: False
      show ?thesis
      proof (cases "list ! i = 0")
        case True
        show ?thesis
          unfolding destroy_loop_null [OF lt len nmax True]
          by (rule Suc.hyps(1) [OF k])
      next
        case False
        show ?thesis
          unfolding destroy_loop_table [OF lt len nmax False]
          by (rule Suc.hyps(1) [OF k])
      qed
    qed
  qed
qed

lemma destroy_loop_signed_overflow:
  assumes "INT_MAX < unat listlen" and "unat listlen \<le> length list" and "i \<le> INT_MAX"
  shows "destroy_loop list listlen keep i v s = Inl SignedOverflow"
  using assms
proof (induction "INT_MAX - i" arbitrary: i list v s)
  case 0
  then have "i = INT_MAX" "i < unat listlen" "i < length list"
    by simp_all
  then show ?case
    by (simp add: destroy_loop_overflow)
next
  case (Suc k)
  then have lt: "i < unat listlen" and len: "i < length list" and nmax: "i \<noteq> INT_MAX"
    and k: "k = INT_MAX - Suc i" and le: "Suc i \<le> INT_MAX"
    by simp_all
  show ?case
  proof (cases "list ! i = 0")
    case True
    show ?thesis
      unfolding destroy_loop_null [OF lt len nmax True]
      by (rule Suc.hyps(1) [OF k Suc.prems(1) Suc.prems(2) le])
  next
    case False
    have l1: "unat listlen \<le> length (list[i := 0])"
      using Suc.prems(2) by simp
    show ?thesis
      unfolding destroy_loop_table [OF lt len nmax False]
      by (rule Suc.hyps(1) [OF k Suc.prems(1) l1 le])
  qed
qed

lemma list_frees_null [simp]: "list_frees m keep (replicate n 0) = []"
  by (induction n) (simp_all add: slot_frees_def)




text \<open>
  The lemma \<open>destroy_region_visits_in_order\<close> needs only \<open>listlen \<le> INT_MAX\<close>, the
  range of the signed loop counter. Beyond it no list fits the address space: with
  \<open>listlen = 2^31\<close> and a list of that many slots, all slots are visited and the run
  then ends in the increment of the counter at \<open>INT_MAX\<close>, which is undefined behaviour.
\<close>

lemma destroy_region_signed_counter_overflow:
  "destroy_region (replicate 2147483648 0) 2147483648 vaddr keep s = Inl SignedOverflow"
  unfolding destroy_region_def
  by (rule destroy_loop_signed_overflow) (simp_all add: INT_MAX_def)

text \<open>
  C6. \<open>destroy_region\<close> is idempotent per slot. It leaves every slot of the table list
  null, and a second call on that list (whatever its \<open>vaddr\<close> and \<open>keep\<close>) returns without
  a fault, frees no page and leaves the list, the leaf tables and the page source as they
  are: processing a null slot does nothing. (\<open>listlen\<close> is the length of the list and within
  the range of the signed loop counter.)
\<close>

theorem destroy_region_idempotent:
  assumes "length list = unat listlen" and "unat listlen \<le> INT_MAX"
  shows "\<exists>s1. destroy_region list listlen vaddr keep s = Inr (replicate (length list) 0, s1)
     \<and> (\<exists>s2. destroy_region (replicate (length list) 0) listlen vaddr' keep' s1
                = Inr (replicate (length list) 0, s2)
           \<and> frees (log s2) = frees (log s1) \<and> mem s2 = mem s1 \<and> pool s2 = pool s1)"
proof -
  obtain s1 where s1: "destroy_region list listlen vaddr keep s = Inr (replicate (length list) 0, s1)"
    using destroy_loop_effect [OF assms, of 0 keep vaddr s]
    unfolding destroy_region_def by auto
  have len: "length (replicate (length list) (0::uintptr_t)) = unat listlen"
    using assms(1) by simp
  obtain s2 where s2: "destroy_region (replicate (length list) 0) listlen vaddr' keep' s1
                = Inr (replicate (length list) 0, s2)"
     "frees (log s2) = frees (log s1)" "mem s2 = mem s1" "pool s2 = pool s1"
    using destroy_loop_effect [OF len assms(2), of 0 keep' vaddr' s1]
    unfolding destroy_region_def by auto
  show ?thesis
    using s1 s2 by blast
qed

theorem destroy_region_idempotent_witness:
  "\<exists>s1. destroy_region [0x1000, 0] 2 0x40000000 False
            \<lparr>pool = [], mem = (\<lambda>_ _. 0)(0x1000 := (\<lambda>_. 0)(0 := 0x2003)), log = []\<rparr>
          = Inr (replicate (length [0x1000, 0 :: uintptr_t]) 0, s1)
     \<and> (\<exists>s2. destroy_region (replicate (length [0x1000, 0 :: uintptr_t]) 0) 2 0x40000000 False s1
                = Inr (replicate (length [0x1000, 0 :: uintptr_t]) 0, s2)
           \<and> frees (log s2) = frees (log s1) \<and> mem s2 = mem s1 \<and> pool s2 = pool s1)"
  using destroy_region_idempotent [of "[0x1000, 0]" 2 "0x40000000" False
      "\<lparr>pool = [], mem = (\<lambda>_ _. 0)(0x1000 := (\<lambda>_. 0)(0 := 0x2003)), log = []\<rparr>" "0x40000000" False]
  by (simp add: INT_MAX_def)

text \<open>
  C10. The effect of \<open>destroy_region\<close> does not depend on \<open>vaddr\<close>: two calls that differ
  in \<open>vaddr\<close> only have the same outcome, that is the same fault, or the same final table
  list and the same final state (the pages freed, in their order, are in its event log).
\<close>

theorem destroy_region_vaddr_independent:
  "destroy_region list listlen vaddr1 keep s = destroy_region list listlen vaddr2 keep s"
  unfolding destroy_region_def by (rule destroy_loop_vaddr)

section \<open>The loops of \<open>arm_addrenv_create_region\<close>\<close>

lemma mm_pgalloc_empty:
  "pool s = [] \<Longrightarrow> mm_pgalloc s = (0, emit (PgAlloc 0) s)"
  by (simp add: mm_pgalloc_def)


lemma mm_pgalloc_effect:
  assumes "mm_pgalloc s = (p, s1)"
  shows "log s1 = log s @ [PgAlloc p]" and "mem s1 = mem s"
    and "p \<noteq> 0 \<Longrightarrow> pool s = p # pool s1"
    and "p = 0 \<Longrightarrow> pool s1 = [] \<or> pool s = 0 # pool s1"
  using assms by (auto simp: mm_pgalloc_def split: list.splits)

lemma memset_l2table_simps [simp]:
  "log (memset_l2table t s) = log s @ [Memset t]"
  "pool (memset_l2table t s) = pool s"
  "mem (memset_l2table t s) t' = (if t' = t then (\<lambda>n. if n < ENTRIES_PER_L2TABLE then 0 else mem s t n) else mem s t')"
  by (simp_all add: memset_l2table_def)

lemma set_l2_entry_simps [simp]:
  "log (set_l2_entry t p v f s) = log s @ [SetL2Entry t p v f]"
  "pool (set_l2_entry t p v f s) = pool s"
  "mem (set_l2_entry t p v f s) t' = (if t' = t then (mem s t)(l2_index v := l2_encode p f) else mem s t')"
  by (simp_all add: set_l2_entry_def)

lemma fill_l2table_done:
  "\<not> (j < ENTRIES_PER_L2TABLE \<and> nm < rs) \<Longrightarrow> fill_l2table t f rs j nm v s = (True, nm, v, s)"
  by (subst fill_l2table.simps) auto

lemma fill_l2table_nomem:
  "j < ENTRIES_PER_L2TABLE \<Longrightarrow> nm < rs \<Longrightarrow> mm_pgalloc s = (0, s1) \<Longrightarrow>
     fill_l2table t f rs j nm v s = (False, nm, v, s1)"
  by (subst fill_l2table.simps) simp

lemma fill_l2table_step:
  "j < ENTRIES_PER_L2TABLE \<Longrightarrow> nm < rs \<Longrightarrow> mm_pgalloc s = (p, s1) \<Longrightarrow> p \<noteq> 0 \<Longrightarrow>
     fill_l2table t f rs j nm v s =
       fill_l2table t f rs (Suc j) (nm + MM_PGSIZE) (v + MM_PGSIZE) (set_l2_entry t p v f s1)"
  by (subst fill_l2table.simps) simp

lemma create_loop_done:
  "\<not> i < nlist \<Longrightarrow> create_loop list f rs nlist i nm v s = Inr (True, list, s)"
  by (subst create_loop.simps) simp

lemma create_loop_nomem:
  "i < nlist \<Longrightarrow> mm_pgalloc s = (0, s1) \<Longrightarrow>
     create_loop list f rs nlist i nm v s = Inr (False, list, s1)"
  by (subst create_loop.simps) simp

lemma create_loop_misaligned:
  "i < nlist \<Longrightarrow> mm_pgalloc s = (p, s1) \<Longrightarrow> p \<noteq> 0 \<Longrightarrow> \<not> MM_ISALIGNED p \<Longrightarrow>
     create_loop list f rs nlist i nm v s = Inl AssertionFailed"
  by (subst create_loop.simps) simp

lemma create_loop_out_of_bounds:
  "i < nlist \<Longrightarrow> mm_pgalloc s = (p, s1) \<Longrightarrow> p \<noteq> 0 \<Longrightarrow> MM_ISALIGNED p \<Longrightarrow> \<not> i < length list \<Longrightarrow>
     create_loop list f rs nlist i nm v s = Inl OutOfBounds"
  by (subst create_loop.simps) simp

lemma create_loop_table:
  "i < nlist \<Longrightarrow> mm_pgalloc s = (p, s1) \<Longrightarrow> p \<noteq> 0 \<Longrightarrow> MM_ISALIGNED p \<Longrightarrow> i < length list \<Longrightarrow>
   fill_l2table p f rs 0 nm v
     (memset_l2table p (enter_critical_section (emit (ListWrite i p) s1))) = (ok, nm', v', s5) \<Longrightarrow>
     create_loop list f rs nlist i nm v s =
       (if ok then create_loop (list[i := p]) f rs nlist (Suc i) nm' v'
                     (leave_critical_section (up_flush_dcache p s5))
        else Inr (False, list[i := p], leave_critical_section s5))"
  by (subst create_loop.simps) (simp add: Let_def arm_pgvaddr_def)

section \<open>The order of events in \<open>arm_addrenv_create_region\<close>\<close>

lemma build_run_append:
  "build_run ph (xs @ ys) = (case build_run ph xs of None \<Rightarrow> None | Some ph' \<Rightarrow> build_run ph' ys)"
  by (induction xs arbitrary: ph) (simp_all split: option.splits)

lemma fill_l2table_order:
  assumes "fill_l2table t f rs j nm v s = (ok, nm', v', s')"
  shows "\<exists>evs. log s' = log s @ evs \<and> list_writes evs = []
     \<and> build_run (Filling i t) evs = Some (if ok then Filling i t else Aborting)"
  using assms
proof (induction t f rs j nm v s rule: fill_l2table.induct)
  case (1 t f rs j nm v s)
  show ?case
  proof (cases "j < ENTRIES_PER_L2TABLE \<and> nm < rs")
    case False
    then show ?thesis
      using "1.prems" by (simp add: fill_l2table_done)
  next
    case True
    obtain p s1 where al: "mm_pgalloc s = (p, s1)"
      by (cases "mm_pgalloc s")
    show ?thesis
    proof (cases "p = 0")
      case True
      then have "fill_l2table t f rs j nm v s = (False, nm, v, s1)"
        using \<open>j < ENTRIES_PER_L2TABLE \<and> nm < rs\<close> al by (simp add: fill_l2table_nomem)
      then show ?thesis
        using "1.prems" mm_pgalloc_effect(1) [OF al] True by auto
    next
      case False
      let ?s2 = "set_l2_entry t p v f s1"
      have "fill_l2table t f rs (j + 1) (nm + MM_PGSIZE) (v + MM_PGSIZE) ?s2 = (ok, nm', v', s')"
        using "1.prems" True al False by (simp add: fill_l2table_step)
      from "1.IH" [OF True al [symmetric] False this]
      obtain evs where evs: "log s' = log ?s2 @ evs" "list_writes evs = []"
        "build_run (Filling i t) evs = Some (if ok then Filling i t else Aborting)"
        by blast
      have "log s' = log s @ ([PgAlloc p, SetL2Entry t p v f] @ evs)"
        using evs(1) mm_pgalloc_effect(1) [OF al] by simp
      moreover have "build_run (Filling i t) ([PgAlloc p, SetL2Entry t p v f] @ evs)
          = Some (if ok then Filling i t else Aborting)"
        using evs(3) False by simp
      moreover have "list_writes ([PgAlloc p, SetL2Entry t p v f] @ evs) = []"
        using evs(2) by simp
      ultimately show ?thesis
        by blast
    qed
  qed
qed

lemma create_loop_order:
  assumes "create_loop list f rs nlist i nm v s = Inr (ok, list', s')"
  shows "\<exists>evs. log s' = log s @ evs
     \<and> build_run (Idle i) evs = Some (if ok then Idle (i + length (list_writes evs)) else Returned)
     \<and> map fst (list_writes evs) = [i..<i + length (list_writes evs)]
     \<and> i + length (list_writes evs) \<le> max i nlist
     \<and> list' = take i list @ map snd (list_writes evs) @ drop (i + length (list_writes evs)) list
     \<and> i + length (list_writes evs) \<le> max i (length list)
     \<and> 0 \<notin> set (map snd (list_writes evs))"
  using assms
proof (induction "nlist - i" arbitrary: i list nm v s)
  case 0
  then have "\<not> i < nlist"
    by simp
  then have "list' = list" "s' = s" "ok"
    using "0.prems" by (simp_all add: create_loop_done)
  then show ?case
    by simp
next
  case (Suc k)
  then have lt: "i < nlist" and k: "k = nlist - Suc i"
    by simp_all
  obtain p s1 where al: "mm_pgalloc s = (p, s1)"
    by (cases "mm_pgalloc s")
  note l1 = mm_pgalloc_effect(1) [OF al]
  show ?case
  proof (cases "p = 0")
    case True
    then have "list' = list" "s' = s1" "\<not> ok"
      using Suc.prems lt al by (simp_all add: create_loop_nomem)
    then show ?thesis
      using l1 True by simp
  next
    case nz: False
    have al': "MM_ISALIGNED p"
      using Suc.prems create_loop_misaligned [OF lt al nz, of list f rs nm v]
      by (cases "MM_ISALIGNED p") simp_all
    have len: "i < length list"
      using Suc.prems create_loop_out_of_bounds [OF lt al nz al', of list f rs nm v]
      by (cases "i < length list") simp_all
    let ?s4 = "memset_l2table p (enter_critical_section (emit (ListWrite i p) s1))"
    obtain ok1 nm1 v1 s5 where fl: "fill_l2table p f rs 0 nm v ?s4 = (ok1, nm1, v1, s5)"
      by (cases "fill_l2table p f rs 0 nm v ?s4")
    obtain fe where fe: "log s5 = log ?s4 @ fe" "list_writes fe = []"
      "build_run (Filling i p) fe = Some (if ok1 then Filling i p else Aborting)"
      using fill_l2table_order [OF fl] by blast
    define pre where "pre = [PgAlloc p, ListWrite i p, EnterCritical, Memset p]"
    have l4: "log ?s4 = log s @ pre"
      using l1 by (simp add: pre_def)
    have rp: "build_run (Idle i) pre = Some (Filling i p)"
      using nz by (simp add: pre_def)
    have wp: "list_writes pre = [(i, p)]"
      by (simp add: pre_def)
    note step = create_loop_table [OF lt al nz al' len fl]
    show ?thesis
    proof (cases ok1)
      case False
      then have r: "list' = list[i := p]" "s' = leave_critical_section s5" "\<not> ok"
        using Suc.prems step by simp_all
      define evs where "evs = pre @ fe @ [LeaveCritical]"
      have "log s' = log s @ evs"
        using r(2) fe(1) l4 by (simp add: evs_def)
      moreover have "build_run (Idle i) evs = Some Returned"
        using rp fe(3) False by (simp add: evs_def build_run_append)
      moreover have lw: "list_writes evs = [(i, p)]"
        using wp fe(2) by (simp add: evs_def)
      moreover have "list[i := p] = take i list @ [p] @ drop (Suc i) list"
        using len by (simp add: upd_conv_take_nth_drop)
      ultimately show ?thesis
        using r lt len nz by (intro exI [of _ evs]) simp
    next
      case True
      let ?s6 = "leave_critical_section (up_flush_dcache p s5)"
      have rec: "create_loop (list[i := p]) f rs nlist (Suc i) nm1 v1 ?s6 = Inr (ok, list', s')"
        using Suc.prems step True by simp
      from Suc.hyps(1) [OF k rec]
      obtain e2 where e2: "log s' = log ?s6 @ e2"
        "build_run (Idle (Suc i)) e2 = Some (if ok then Idle (Suc i + length (list_writes e2)) else Returned)"
        "map fst (list_writes e2) = [Suc i..<Suc i + length (list_writes e2)]"
        "Suc i + length (list_writes e2) \<le> max (Suc i) nlist"
        "list' = take (Suc i) (list[i := p]) @ map snd (list_writes e2)
                   @ drop (Suc i + length (list_writes e2)) (list[i := p])"
        "Suc i + length (list_writes e2) \<le> max (Suc i) (length (list[i := p]))"
        "0 \<notin> set (map snd (list_writes e2))"
        by blast
      define evs where "evs = pre @ fe @ [FlushDcache p, LeaveCritical] @ e2"
      have "log s' = log s @ evs"
        using e2(1) fe(1) l4 by (simp add: evs_def)
      moreover have "build_run (Idle i) evs = build_run (Idle (Suc i)) e2"
        using rp fe(3) True by (simp add: evs_def build_run_append)
      moreover have lw: "list_writes evs = (i, p) # list_writes e2"
        using wp fe(2) by (simp add: evs_def)
      moreover have "take (Suc i) (list[i := p]) = take i list @ [p]"
        using len by (simp add: take_Suc_conv_app_nth)
      moreover have "[i..<Suc (i + length (list_writes e2))] = i # [Suc i..<Suc i + length (list_writes e2)]"
        using upt_conv_Cons [of i "Suc (i + length (list_writes e2))"] by simp
      ultimately show ?thesis
        using e2(2-7) lt len nz by (intro exI [of _ evs]) simp
    qed
  qed
qed

lemma build_step_null:
  "build_step ph (PgAlloc 0) = Some ph' \<Longrightarrow> ph' = Returned \<or> ph' = Aborting"
  by (cases ph) simp_all

lemma build_step_Returned: "build_step Returned e = None"
  by (cases e) simp_all

lemma build_step_Aborting:
  "build_step Aborting e = Some ph' \<Longrightarrow> e = LeaveCritical \<and> ph' = Returned"
  by (cases e) simp_all

lemma build_run_Returned: "build_run Returned es = Some ph' \<Longrightarrow> es = []"
  by (cases es) (simp_all add: build_step_Returned)

lemma build_run_Aborting:
  assumes "build_run Aborting es = Some ph'"
  shows "es = [] \<or> es = [LeaveCritical]"
proof (cases es)
  case Nil
  then show ?thesis
    by simp
next
  case (Cons e es')
  then obtain ph1 where s: "build_step Aborting e = Some ph1" and r: "build_run ph1 es' = Some ph'"
    using assms by (auto split: option.splits)
  have "e = LeaveCritical" "ph1 = Returned"
    using build_step_Aborting [OF s] by simp_all
  then show ?thesis
    using Cons r build_run_Returned by auto
qed

lemma build_run_after_null:
  assumes "build_run ph (xs @ PgAlloc 0 # ys) = Some ph'"
  shows "ys = [] \<or> ys = [LeaveCritical]"
proof -
  obtain ph1 where "build_run ph1 (PgAlloc 0 # ys) = Some ph'"
    using assms by (auto simp: build_run_append split: option.splits)
  then obtain ph2 where s: "build_step ph1 (PgAlloc 0) = Some ph2" and r: "build_run ph2 ys = Some ph'"
    by (auto split: option.splits)
  from build_step_null [OF s] show ?thesis
  proof
    assume "ph2 = Returned"
    then show ?thesis
      using r build_run_Returned by auto
  next
    assume "ph2 = Aborting"
    then show ?thesis
      using r build_run_Aborting by auto
  qed
qed

section \<open>The two ways through \<open>arm_addrenv_create_region\<close>\<close>

lemma create_region_cases:
  assumes "create_region list listlen vaddr regionsize mmuflags s = Inr (rv, list', s')"
  obtains (too_big) "rv = - E2BIG" "list' = list" "s' = s"
      "push_bit (20 - MM_PGSHIFT) listlen < MM_NPAGES regionsize"
  | (loop) ok where
      "create_loop list mmuflags regionsize (((unat regionsize + 4095) div 4096 + 255) div 256)
         0 0 vaddr s = Inr (ok, list', s')"
      "rv = (if ok then int ((unat regionsize + 4095) div 4096) else - ENOMEM)"
      "MM_NPAGES regionsize \<le> push_bit (20 - MM_PGSHIFT) listlen"
proof (cases "push_bit (20 - MM_PGSHIFT) listlen < MM_NPAGES regionsize")
  case True
  then show ?thesis
    using assms too_big by (simp add: create_region_def)
next
  case False
  let ?r = "create_loop list mmuflags regionsize (((unat regionsize + 4095) div 4096 + 255) div 256)
         0 0 vaddr s"
  have le: "MM_NPAGES regionsize \<le> push_bit (20 - MM_PGSHIFT) listlen"
    using False by simp
  have c: "(case ?r of Inl f \<Rightarrow> Inl f
      | Inr (ok, l, t) \<Rightarrow> Inr (if ok then sint (MM_NPAGES regionsize) else - ENOMEM, l, t))
      = Inr (rv, list', s')"
    using assms False by (simp add: create_region_def Let_def unat_nlist)
  show ?thesis
  proof (cases ?r)
    case (Inl f)
    then show ?thesis
      using c by simp
  next
    case (Inr r)
    obtain ok l t where r: "r = (ok, l, t)"
      by (cases r)
    have "?r = Inr (ok, list', s')"
      using c Inr r by simp
    moreover have "rv = (if ok then int ((unat regionsize + 4095) div 4096) else - ENOMEM)"
      using c Inr r by (auto simp: sint_MM_NPAGES)
    ultimately show ?thesis
      using le by (rule loop)
  qed
qed

section \<open>Construction order and frame of \<open>arm_addrenv_create_region\<close>\<close>

lemmas run_create_region =
  create_region_def MM_NPAGES_def MM_PGSHIFT_def ENTRIES_PER_L2TABLE_def MM_PGSIZE_def
  MM_ISALIGNED_def MM_PGMASK_def E2BIG_def ENOMEM_def Let_def
  mm_pgalloc_def emit_def enter_critical_section_def leave_critical_section_def
  up_flush_dcache_def arm_pgvaddr_def memset_l2table_def set_l2_entry_def
  create_loop.simps fill_l2table.simps

text \<open>
  C1, as the spec words it, fails: \<open>list[i]\<close> is written right after the page of the
  leaf table is allocated (line 110), before the table is zeroed, populated and flushed
  (lines 112-151). Mapping one page into a fresh one-slot list gives the event log below,
  in which the write of slot 0 comes first.
\<close>

theorem create_region_publishes_before_flush:
  "log (snd (snd (projr (create_region [0] 1 0 4096 0x3f
       \<lparr>pool = [0x1000, 0x2000], mem = (\<lambda>_ _. 0), log = []\<rparr>))))
     = [PgAlloc 0x1000, ListWrite 0 0x1000, EnterCritical, Memset 0x1000,
        PgAlloc 0x2000, SetL2Entry 0x1000 0x2000 0 0x3f, FlushDcache 0x1000, LeaveCritical]
   \<and> \<not> published_after_flush [] (log (snd (snd (projr (create_region [0] 1 0 4096 0x3f
       \<lparr>pool = [0x1000, 0x2000], mem = (\<lambda>_ _. 0), log = []\<rparr>)))))"
  by (simp add: run_create_region)

text \<open>
  C1, amended. For every call and every slot \<open>i\<close> that the call fills, the address of the
  leaf table is written into \<open>list[i]\<close> right after the table's page is allocated; then,
  inside one critical section, the table is zeroed, populated entry by entry and flushed,
  before the page of the next table is allocated. A call that returns a page count has
  completed these steps for every slot it wrote; a call that returns \<open>-ENOMEM\<close> stopped at
  a null answer of the page source, after leaving the critical section if it was in one.
\<close>

theorem create_region_construction_order:
  assumes "create_region list listlen vaddr regionsize mmuflags s = Inr (rv, list', s')"
    and "log s = []"
  shows "build_run (Idle 0) (log s')
    = Some (if rv = - ENOMEM then Returned else Idle (length (list_writes (log s'))))"
  using assms(1)
proof (cases rule: create_region_cases)
  case too_big
  then show ?thesis
    using assms(2) by (simp add: E2BIG_def ENOMEM_def)
next
  case (loop ok)
  obtain evs where evs: "log s' = log s @ evs"
    "build_run (Idle 0) evs = Some (if ok then Idle (0 + length (list_writes evs)) else Returned)"
    using create_loop_order [OF loop(1)] by blast
  have "rv = - ENOMEM \<longleftrightarrow> \<not> ok"
    using loop(2) by (simp add: ENOMEM_def)
  then show ?thesis
    using evs assms(2) by simp
qed

theorem create_region_construction_order_witness:
  "build_run (Idle 0) (log (snd (snd (projr (create_region [0] 1 0 4096 0x3f
       \<lparr>pool = [0x1000, 0x2000], mem = (\<lambda>_ _. 0), log = []\<rparr>)))))
     = Some (Idle 1)"
  using create_region_construction_order [of "[0]" 1 0 4096 "0x3f"
    "\<lparr>pool = [0x1000, 0x2000], mem = (\<lambda>_ _. 0), log = []\<rparr>"
    "fst (projr (create_region [0] 1 0 4096 0x3f
       \<lparr>pool = [0x1000, 0x2000], mem = (\<lambda>_ _. 0), log = []\<rparr>))"
    "fst (snd (projr (create_region [0] 1 0 4096 0x3f
       \<lparr>pool = [0x1000, 0x2000], mem = (\<lambda>_ _. 0), log = []\<rparr>)))"
    "snd (snd (projr (create_region [0] 1 0 4096 0x3f
       \<lparr>pool = [0x1000, 0x2000], mem = (\<lambda>_ _. 0), log = []\<rparr>)))"]
  by (simp add: run_create_region)

text \<open>
  C9. \<open>create_region\<close> writes the slots \<open>0, 1, ..., w - 1\<close> of the table list, in this
  order and once each, where \<open>w\<close> is at most \<open>nlist = ceil(ceil(regionsize / pagesize) /
  ENTRIES_PER_L2TABLE)\<close>; the list keeps its length and every slot from \<open>w\<close> on keeps its
  value, in particular every slot at index \<open>nlist\<close> or beyond. A null answer of the page
  source ends the call: nothing follows it but, when a table was being filled, leaving
  the critical section, so no slot is written after it. In the loop itself, whenever the
  allocation of the leaf-table page for slot \<open>i\<close> fails, the loop returns at once with the
  table list as it is, slot \<open>i\<close> included.
\<close>

theorem create_region_frame:
  assumes "create_region list listlen vaddr regionsize mmuflags s = Inr (rv, list', s')"
    and "log s = []"
  shows "length list' = length list
    \<and> map fst (list_writes (log s')) = [0..<length (list_writes (log s'))]
    \<and> length (list_writes (log s')) \<le> ((unat regionsize + 4095) div 4096 + 255) div 256
    \<and> list' = map snd (list_writes (log s')) @ drop (length (list_writes (log s'))) list
    \<and> (\<forall>n. ((unat regionsize + 4095) div 4096 + 255) div 256 \<le> n \<longrightarrow> n < length list
          \<longrightarrow> list' ! n = list ! n)
    \<and> (\<forall>xs ys. log s' = xs @ PgAlloc 0 # ys \<longrightarrow> ys = [] \<or> ys = [LeaveCritical])
    \<and> (\<forall>l nlist i nm v t t1. i < nlist \<longrightarrow> mm_pgalloc t = (0, t1) \<longrightarrow>
          create_loop l mmuflags regionsize nlist i nm v t = Inr (False, l, t1))"
proof -
  have step: "\<forall>l nlist i nm v t t1. i < nlist \<longrightarrow> mm_pgalloc t = (0, t1) \<longrightarrow>
          create_loop l mmuflags regionsize nlist i nm v t = Inr (False, l, t1)"
    by (simp add: create_loop_nomem)
  from assms(1) show ?thesis
  proof (cases rule: create_region_cases)
    case too_big
    then show ?thesis
      using assms(2) step by simp
  next
    case (loop ok)
    let ?nlist = "((unat regionsize + 4095) div 4096 + 255) div 256"
    obtain evs where evs: "log s' = log s @ evs"
      "build_run (Idle 0) evs = Some (if ok then Idle (0 + length (list_writes evs)) else Returned)"
      "map fst (list_writes evs) = [0..<0 + length (list_writes evs)]"
      "0 + length (list_writes evs) \<le> max 0 ?nlist"
      "list' = take 0 list @ map snd (list_writes evs) @ drop (0 + length (list_writes evs)) list"
      "0 + length (list_writes evs) \<le> max 0 (length list)"
      using create_loop_order [OF loop(1)] by blast
    let ?w = "length (list_writes (log s'))"
    have lg: "log s' = evs"
      using evs(1) assms(2) by simp
    have w: "?w \<le> ?nlist" "?w \<le> length list"
      using evs(4,6) lg by simp_all
    have l': "list' = map snd (list_writes (log s')) @ drop ?w list"
      using evs(5) lg by simp
    have len: "length list' = length list"
      using w(2) by (subst l') simp
    have nth: "list' ! n = list ! n" if "?w \<le> n" "n < length list" for n
    proof -
      have "list' ! n = drop ?w list ! (n - ?w)"
        using that by (subst l') (simp add: nth_append)
      then show ?thesis
        using that by simp
    qed
    have null: "ys = [] \<or> ys = [LeaveCritical]" if "log s' = xs @ PgAlloc 0 # ys" for xs ys
      using evs(2) that lg build_run_after_null [of "Idle 0" xs ys] by simp
    have idx: "map fst (list_writes (log s')) = [0..<?w]"
      using evs(3) lg by simp
    show ?thesis
    proof (intro conjI)
      show "length list' = length list"
        by (rule len)
      show "map fst (list_writes (log s')) = [0..<?w]"
        by (rule idx)
      show "?w \<le> ?nlist"
        by (rule w(1))
      show "list' = map snd (list_writes (log s')) @ drop ?w list"
        by (rule l')
      show "\<forall>n. ?nlist \<le> n \<longrightarrow> n < length list \<longrightarrow> list' ! n = list ! n"
        using nth w(1) by (meson le_trans)
      show "\<forall>xs ys. log s' = xs @ PgAlloc 0 # ys \<longrightarrow> ys = [] \<or> ys = [LeaveCritical]"
        using null by blast
      show "\<forall>l nlist i nm v t t1. i < nlist \<longrightarrow> mm_pgalloc t = (0, t1) \<longrightarrow>
          create_loop l mmuflags regionsize nlist i nm v t = Inr (False, l, t1)"
        by (rule step)
    qed
  qed
qed

theorem create_region_frame_witness:
  "fst (snd (projr (create_region [0x7000, 0x9000] 2 0 4096 0x3f
       \<lparr>pool = [], mem = (\<lambda>_ _. 0), log = []\<rparr>))) = [0x7000, 0x9000]
   \<and> log (snd (snd (projr (create_region [0x7000, 0x9000] 2 0 4096 0x3f
       \<lparr>pool = [], mem = (\<lambda>_ _. 0), log = []\<rparr>)))) = [PgAlloc 0]
   \<and> create_loop [0x7000, 0x9000] 0x3f 4096 1 0 0 0
       \<lparr>pool = [], mem = (\<lambda>_ _. 0), log = []\<rparr>
     = Inr (False, [0x7000, 0x9000], \<lparr>pool = [], mem = (\<lambda>_ _. 0), log = [PgAlloc 0]\<rparr>)"
  using create_region_frame [of "[0x7000, 0x9000]" 2 0 4096 "0x3f"
    "\<lparr>pool = [], mem = (\<lambda>_ _. 0), log = []\<rparr>"
    "fst (projr (create_region [0x7000, 0x9000] 2 0 4096 0x3f
       \<lparr>pool = [], mem = (\<lambda>_ _. 0), log = []\<rparr>))"
    "fst (snd (projr (create_region [0x7000, 0x9000] 2 0 4096 0x3f
       \<lparr>pool = [], mem = (\<lambda>_ _. 0), log = []\<rparr>)))"
    "snd (snd (projr (create_region [0x7000, 0x9000] 2 0 4096 0x3f
       \<lparr>pool = [], mem = (\<lambda>_ _. 0), log = []\<rparr>)))"]
  by (simp add: run_create_region)

section \<open>\<open>arm_addrenv_create_region\<close> with a page source that does not run out\<close>



lemma nlist_within_capacity:
  assumes "\<not> push_bit (20 - MM_PGSHIFT) listlen < MM_NPAGES regionsize"
  shows "(unat regionsize + 4095) div 4096 \<le> unat listlen * 256"
    and "((unat regionsize + 4095) div 4096 + 255) div 256 \<le> unat listlen"
proof -
  have "unat (MM_NPAGES regionsize) \<le> unat (push_bit (20 - MM_PGSHIFT) listlen)"
    using assms by (simp add: word_less_nat_alt)
  then show a: "(unat regionsize + 4095) div 4096 \<le> unat listlen * 256"
    using unat_section_pages_le [of listlen] by (simp add: unat_MM_NPAGES)
  have "\<not> unat listlen < ((unat regionsize + 4095) div 4096 + 255) div 256"
    using a by (simp add: nlist_less_iff)
  then show "((unat regionsize + 4095) div 4096 + 255) div 256 \<le> unat listlen"
    by simp
qed







section \<open>The pages that the leaf tables refer to\<close>

lemma l2_index_less: "l2_index v < 256"
  by (simp add: l2_index_def ENTRIES_PER_L2TABLE_def)

lemma mod_mult_div: "(a mod (n * q)) div n = (a div n) mod (q::nat)"
  by (cases "n = 0") (simp_all add: mod_mult2_eq)

lemma l2_index_next: "l2_index (v + MM_PGSIZE) = (l2_index v + 1) mod 256"
proof -
  have "unat (v + 4096) = (unat v + 4096) mod 4294967296"
    by (simp add: unat_word_ariths)
  then have "unat (v + 4096) div 4096 = ((unat v + 4096) div 4096) mod 1048576"
    using mod_mult_div [of "unat v + 4096" 4096 1048576] by simp
  also have "(unat v + 4096) div 4096 = unat v div 4096 + 1"
    by simp
  finally have "unat (v + 4096) div 4096 mod 256 = (unat v div 4096 + 1) mod 1048576 mod 256"
    by simp
  also have "\<dots> = (unat v div 4096 + 1) mod 256"
    by (rule mod_mod_cancel) simp
  also have "\<dots> = (unat v div 4096 mod 256 + 1) mod 256"
    by (rule mod_add_left_eq [symmetric])
  finally show ?thesis
    by (simp add: l2_index_def MM_PGSIZE_def ENTRIES_PER_L2TABLE_def)
qed

lemma map_upd_upt:
  assumes "n < k"
  shows "map (g(n := e)) [0..<k] = map g [0..<n] @ [e] @ map g [Suc n..<k]"
    and "map g [0..<k] = map g [0..<n] @ [g n] @ map g [Suc n..<k]"
proof -
  have "[0..<k] = [0..<n] @ [n] @ [Suc n..<k]"
    using assms by (metis append_Cons append_Nil le0 less_imp_le_nat upt_add_eq_append
        le_Suc_ex upt_conv_Cons)
  then show "map (g(n := e)) [0..<k] = map g [0..<n] @ [e] @ map g [Suc n..<k]"
    and "map g [0..<k] = map g [0..<n] @ [g n] @ map g [Suc n..<k]"
    by simp_all
qed

lemma l2_pages_set_entry:
  assumes "m t n = 0" and "n < ENTRIES_PER_L2TABLE" and "e \<noteq> 0"
  shows "mset (l2_pages (m(t := (m t)(n := e))) t 0) = add_mset (l2_decode e) (mset (l2_pages m t 0))"
  using assms by (simp add: l2_pages_def map_upd_upt [OF assms(2)])

lemma l2_pages_zeroed:
  assumes "\<forall>n < ENTRIES_PER_L2TABLE. m t n = 0"
  shows "l2_pages m t 0 = []"
  using assms by (simp add: l2_pages_def filter_empty_conv)

lemma l2_pages_cong: "m' t = m t \<Longrightarrow> l2_pages m' t j = l2_pages m t j"
  by (simp add: l2_pages_def)

lemma mm_pgalloc_null:
  assumes "mm_pgalloc s = (0, s1)" and "0 \<notin> set (pool s)"
  shows "pool s = []" and "pool s1 = []" and "log s1 = log s @ [PgAlloc 0]" and "mem s1 = mem s"
  using assms by (auto simp: mm_pgalloc_def split: list.splits)

lemma l2_encode_nonzero:
  assumes "MM_ISALIGNED p" and "valid_mmuflags f" and "p \<noteq> 0"
  shows "l2_encode p f \<noteq> 0"
proof
  assume "l2_encode p f = 0"
  then have "l2_decode (l2_encode p f) = 0"
    by (simp add: l2_decode_def)
  then show False
    using assms by (simp add: l2_decode_encode)
qed

lemma mod_shift_neq:
  assumes "a < 256" and "0 < d" and "d < 256"
  shows "(a + d) mod 256 \<noteq> (a::nat)"
proof (cases "a + d < 256")
  case True
  then show ?thesis
    using assms by simp
next
  case False
  then have "(a + d) mod 256 = (a + d - 256) mod 256"
    using le_mod_geq [of 256 "a + d"] by simp
  also have "\<dots> = a + d - 256"
    using assms by simp
  finally show ?thesis
    using assms False by arith
qed

lemma fill_l2table_pages:
  assumes "fill_l2table t f rs j nm v s = (ok, nm', v', s')"
    and "\<forall>p\<in>set (pool s). p \<noteq> 0 \<and> MM_ISALIGNED p"
    and "\<forall>k < ENTRIES_PER_L2TABLE - j. mem s t ((l2_index v + k) mod 256) = 0"
  shows "\<exists>evs. log s' = log s @ evs \<and> frees evs = [] \<and> list_writes evs = []
     \<and> pool s = mapped_pages evs @ pool s'
     \<and> filter (\<lambda>p. p \<noteq> 0) (allocs evs) = mapped_pages evs
     \<and> (valid_mmuflags f \<longrightarrow>
          mset (l2_pages (mem s') t 0) = mset (l2_pages (mem s) t 0) + mset (mapped_pages evs))
     \<and> (\<forall>t'. t' \<noteq> t \<longrightarrow> mem s' t' = mem s t')
     \<and> (ok \<longleftrightarrow> 0 \<notin> set (allocs evs))"
  using assms
proof (induction t f rs j nm v s rule: fill_l2table.induct)
  case (1 t f rs j nm v s)
  show ?case
  proof (cases "j < ENTRIES_PER_L2TABLE \<and> nm < rs")
    case False
    then have "s' = s" "ok"
      using "1.prems"(1) by (simp_all add: fill_l2table_done)
    then show ?thesis
      by simp
  next
    case True
    obtain p s1 where al: "mm_pgalloc s = (p, s1)"
      by (cases "mm_pgalloc s")
    show ?thesis
    proof (cases "p = 0")
      case z: True
      have "0 \<notin> set (pool s)"
        using "1.prems"(2) by auto
      note n = mm_pgalloc_null [OF al [unfolded z] this]
      have "fill_l2table t f rs j nm v s = (False, nm, v, s1)"
        using True al z by (simp add: fill_l2table_nomem)
      then have "s' = s1" "\<not> ok"
        using "1.prems"(1) by simp_all
      then show ?thesis
        using n by (intro exI [of _ "[PgAlloc 0]"]) simp
    next
      case nz: False
      let ?s2 = "set_l2_entry t p v f s1"
      note e = mm_pgalloc_effect [OF al]
      have pool: "pool s = p # pool s1"
        using e(3) nz by simp
      have pa: "MM_ISALIGNED p"
        using "1.prems"(2) pool by simp
      have jl: "j < ENTRIES_PER_L2TABLE"
        using True by simp
      have z0: "mem s t (l2_index v) = 0"
        using "1.prems"(3) [rule_format, of 0] jl l2_index_less [of v] by simp
      have rec: "fill_l2table t f rs (j + 1) (nm + MM_PGSIZE) (v + MM_PGSIZE) ?s2 = (ok, nm', v', s')"
        using "1.prems"(1) True al nz by (simp add: fill_l2table_step)
      have g2: "\<forall>q\<in>set (pool ?s2). q \<noteq> 0 \<and> MM_ISALIGNED q"
        using "1.prems"(2) pool by simp
      have z2: "\<forall>k < ENTRIES_PER_L2TABLE - (j + 1).
          mem ?s2 t ((l2_index (v + MM_PGSIZE) + k) mod 256) = 0"
      proof (intro allI impI)
        fix k
        assume k: "k < ENTRIES_PER_L2TABLE - (j + 1)"
        have i: "(l2_index (v + MM_PGSIZE) + k) mod 256 = (l2_index v + Suc k) mod 256"
          by (simp add: l2_index_next mod_add_left_eq)
        have k': "Suc k < ENTRIES_PER_L2TABLE - j"
          using k by simp
        then have "Suc k < 256"
          by (simp add: ENTRIES_PER_L2TABLE_def)
        then have ne: "(l2_index v + Suc k) mod 256 \<noteq> l2_index v"
          using l2_index_less [of v] by (intro mod_shift_neq) simp_all
        have "mem s t ((l2_index v + Suc k) mod 256) = 0"
          using "1.prems"(3) k' by blast
        then show "mem ?s2 t ((l2_index (v + MM_PGSIZE) + k) mod 256) = 0"
          using ne e(2) by (simp add: i)
      qed
      from "1.IH" [OF True al [symmetric] nz rec g2 z2]
      obtain evs where evs: "log s' = log ?s2 @ evs" "frees evs = []" "list_writes evs = []"
        "pool ?s2 = mapped_pages evs @ pool s'"
        "filter (\<lambda>p. p \<noteq> 0) (allocs evs) = mapped_pages evs"
        "valid_mmuflags f \<longrightarrow>
           mset (l2_pages (mem s') t 0) = mset (l2_pages (mem ?s2) t 0) + mset (mapped_pages evs)"
        "\<forall>t'. t' \<noteq> t \<longrightarrow> mem s' t' = mem ?s2 t'"
        "ok \<longleftrightarrow> 0 \<notin> set (allocs evs)"
        by blast
      have m2: "mem ?s2 = (mem s)(t := (mem s t)(l2_index v := l2_encode p f))"
        using e(2) by (simp add: fun_eq_iff)
      have il: "l2_index v < ENTRIES_PER_L2TABLE"
        using l2_index_less [of v] by (simp add: ENTRIES_PER_L2TABLE_def)
      have pg: "mset (l2_pages (mem ?s2) t 0) = add_mset p (mset (l2_pages (mem s) t 0))"
        if vf: "valid_mmuflags f"
        unfolding m2
        using l2_pages_set_entry [of "mem s" t "l2_index v" "l2_encode p f",
            OF z0 il l2_encode_nonzero [OF pa vf nz]]
          l2_decode_encode [OF pa vf]
        by simp
      define evs' where "evs' = [PgAlloc p, SetL2Entry t p v f] @ evs"
      have "log s' = log s @ evs'"
        using evs(1) e(1) by (simp add: evs'_def)
      moreover have "frees evs' = []"
        using evs(2) by (simp add: evs'_def)
      moreover have "list_writes evs' = []"
        using evs(3) by (simp add: evs'_def)
      moreover have "pool s = mapped_pages evs' @ pool s'"
        using evs(4) pool by (simp add: evs'_def)
      moreover have "filter (\<lambda>p. p \<noteq> 0) (allocs evs') = mapped_pages evs'"
        using evs(5) nz by (simp add: evs'_def)
      moreover have "valid_mmuflags f \<longrightarrow>
          mset (l2_pages (mem s') t 0) = mset (l2_pages (mem s) t 0) + mset (mapped_pages evs')"
        using evs(6) pg by (simp add: evs'_def)
      moreover have "\<forall>t'. t' \<noteq> t \<longrightarrow> mem s' t' = mem s t'"
        using evs(7) e(2) by simp
      moreover have "ok \<longleftrightarrow> 0 \<notin> set (allocs evs')"
        using evs(8) nz by (simp add: evs'_def)
      ultimately show ?thesis
        by blast
    qed
  qed
qed

lemma create_loop_pages:
  assumes "distinct (pool s)"
    and "\<forall>p\<in>set (pool s). p \<noteq> 0 \<and> MM_ISALIGNED p" and "nlist \<le> length list"
  shows "\<exists>ok list' s' evs. create_loop list f rs nlist i nm v s = Inr (ok, list', s')
     \<and> log s' = log s @ evs \<and> frees evs = []
     \<and> pool s = filter (\<lambda>p. p \<noteq> 0) (allocs evs) @ pool s'
     \<and> mset (filter (\<lambda>p. p \<noteq> 0) (allocs evs))
          = mset (map snd (list_writes evs)) + mset (mapped_pages evs)
     \<and> (valid_mmuflags f \<longrightarrow>
          mset (list_frees (mem s') False (map snd (list_writes evs)))
            = mset (map snd (list_writes evs)) + mset (mapped_pages evs))
     \<and> (\<forall>t. t \<notin> set (pool s) \<longrightarrow> mem s' t = mem s t)
     \<and> (ok \<longleftrightarrow> 0 \<notin> set (allocs evs))"
  using assms
proof (induction "nlist - i" arbitrary: i list nm v s)
  case 0
  then have "\<not> i < nlist"
    by simp
  then have "create_loop list f rs nlist i nm v s = Inr (True, list, s)"
    by (rule create_loop_done)
  then show ?case
    by (intro exI [of _ True] exI [of _ list] exI [of _ s] exI [of _ "[]"]) simp
next
  case (Suc d)
  have lt: "i < nlist" and d: "d = nlist - Suc i"
    using Suc.hyps(2) by simp_all
  obtain p s1 where al: "mm_pgalloc s = (p, s1)"
    by (cases "mm_pgalloc s")
  show ?case
  proof (cases "p = 0")
    case z: True
    have "0 \<notin> set (pool s)"
      using Suc.prems(2) by auto
    note n = mm_pgalloc_null [OF al [unfolded z] this]
    have "create_loop list f rs nlist i nm v s = Inr (False, list, s1)"
      using lt al z by (simp add: create_loop_nomem)
    then show ?thesis
      using n by (intro exI [of _ False] exI [of _ list] exI [of _ s1] exI [of _ "[PgAlloc 0]"]) simp
  next
    case nz: False
    note e = mm_pgalloc_effect [OF al]
    have pool: "pool s = p # pool s1"
      using e(3) nz by simp
    have pa: "MM_ISALIGNED p"
      using Suc.prems(2) pool by simp
    have len: "i < length list"
      using lt Suc.prems(3) by simp
    let ?s4 = "memset_l2table p (enter_critical_section (emit (ListWrite i p) s1))"
    obtain ok1 nm1 v1 s5 where fl: "fill_l2table p f rs 0 nm v ?s4 = (ok1, nm1, v1, s5)"
      by (cases "fill_l2table p f rs 0 nm v ?s4")
    have g4: "\<forall>q\<in>set (pool ?s4). q \<noteq> 0 \<and> MM_ISALIGNED q"
      using Suc.prems(2) pool by simp
    have z4: "\<forall>k < ENTRIES_PER_L2TABLE - 0. mem ?s4 p ((l2_index v + k) mod 256) = 0"
      by (simp add: ENTRIES_PER_L2TABLE_def)
    from fill_l2table_pages [OF fl g4 z4]
    obtain fe where fe: "log s5 = log ?s4 @ fe" "frees fe = []" "list_writes fe = []"
      "pool ?s4 = mapped_pages fe @ pool s5"
      "filter (\<lambda>p. p \<noteq> 0) (allocs fe) = mapped_pages fe"
      "valid_mmuflags f \<longrightarrow>
         mset (l2_pages (mem s5) p 0) = mset (l2_pages (mem ?s4) p 0) + mset (mapped_pages fe)"
      "\<forall>t'. t' \<noteq> p \<longrightarrow> mem s5 t' = mem ?s4 t'"
      "ok1 \<longleftrightarrow> 0 \<notin> set (allocs fe)"
      by blast
    have p1: "pool s1 = mapped_pages fe @ pool s5"
      using fe(4) by simp
    have l4: "log ?s4 = log s @ [PgAlloc p, ListWrite i p, EnterCritical, Memset p]"
      using e(1) by simp
    have pg5: "valid_mmuflags f \<longrightarrow> mset (l2_pages (mem s5) p 0) = mset (mapped_pages fe)"
      using fe(6) l2_pages_zeroed [of "mem ?s4" p] by simp
    have fr5: "mem s5 t = mem s t" if "t \<noteq> p" for t
      using fe(7) that e(2) by simp
    note step = create_loop_table [OF lt al nz pa len fl]
    show ?thesis
    proof (cases ok1)
      case False
      define evs where "evs = [PgAlloc p, ListWrite i p, EnterCritical, Memset p] @ fe @ [LeaveCritical]"
      let ?s' = "leave_critical_section s5"
      have "create_loop list f rs nlist i nm v s = Inr (False, list[i := p], ?s')"
        using step False by simp
      moreover have "log ?s' = log s @ evs"
        using fe(1) l4 by (simp add: evs_def)
      moreover have "frees evs = []"
        using fe(2) by (simp add: evs_def)
      moreover have "pool s = filter (\<lambda>p. p \<noteq> 0) (allocs evs) @ pool ?s'"
        using pool p1 fe(5) nz by (simp add: evs_def)
      moreover have "mset (filter (\<lambda>p. p \<noteq> 0) (allocs evs))
          = mset (map snd (list_writes evs)) + mset (mapped_pages evs)"
        using fe(3,5) nz by (simp add: evs_def)
      moreover have "valid_mmuflags f \<longrightarrow>
          mset (list_frees (mem ?s') False (map snd (list_writes evs)))
            = mset (map snd (list_writes evs)) + mset (mapped_pages evs)"
        using fe(3) pg5 nz by (simp add: evs_def slot_frees_def)
      moreover have "\<forall>t. t \<notin> set (pool s) \<longrightarrow> mem ?s' t = mem s t"
        using fr5 pool by simp
      moreover have "False \<longleftrightarrow> 0 \<notin> set (allocs evs)"
        using fe(8) False by (simp add: evs_def)
      ultimately show ?thesis
        by blast
    next
      case True
      let ?s6 = "leave_critical_section (up_flush_dcache p s5)"
      have st: "create_loop list f rs nlist i nm v s
          = create_loop (list[i := p]) f rs nlist (Suc i) nm1 v1 ?s6"
        using step True by simp
      have dp: "distinct (p # mapped_pages fe @ pool s5)"
        using Suc.prems(1) pool p1 by simp
      have d6: "distinct (pool ?s6)"
        using dp by simp
      have g6: "\<forall>q\<in>set (pool ?s6). q \<noteq> 0 \<and> MM_ISALIGNED q"
        using Suc.prems(2) pool p1 by simp
      have l6: "nlist \<le> length (list[i := p])"
        using Suc.prems(3) by simp
      from Suc.hyps(1) [OF d d6 g6 l6, of nm1 v1]
      obtain ok list' s' e2 where r:
        "create_loop (list[i := p]) f rs nlist (Suc i) nm1 v1 ?s6 = Inr (ok, list', s')"
        "log s' = log ?s6 @ e2" "frees e2 = []"
        "pool ?s6 = filter (\<lambda>p. p \<noteq> 0) (allocs e2) @ pool s'"
        "mset (filter (\<lambda>p. p \<noteq> 0) (allocs e2))
            = mset (map snd (list_writes e2)) + mset (mapped_pages e2)"
        "valid_mmuflags f \<longrightarrow>
           mset (list_frees (mem s') False (map snd (list_writes e2)))
             = mset (map snd (list_writes e2)) + mset (mapped_pages e2)"
        "\<forall>t. t \<notin> set (pool ?s6) \<longrightarrow> mem s' t = mem ?s6 t"
        "ok \<longleftrightarrow> 0 \<notin> set (allocs e2)"
        by blast
      define evs where "evs = [PgAlloc p, ListWrite i p, EnterCritical, Memset p] @ fe
          @ [FlushDcache p, LeaveCritical] @ e2"
      have pn6: "p \<notin> set (pool ?s6)"
        using dp by simp
      have mp: "mem s' p = mem s5 p"
        using r(7) pn6 by simp
      have "create_loop list f rs nlist i nm v s = Inr (ok, list', s')"
        using st r(1) by simp
      moreover have "log s' = log s @ evs"
        using r(2) fe(1) l4 by (simp add: evs_def)
      moreover have "frees evs = []"
        using r(3) fe(2) by (simp add: evs_def)
      moreover have "pool s = filter (\<lambda>p. p \<noteq> 0) (allocs evs) @ pool s'"
        using pool p1 fe(5) r(4) nz by (simp add: evs_def)
      moreover have "mset (filter (\<lambda>p. p \<noteq> 0) (allocs evs))
          = mset (map snd (list_writes evs)) + mset (mapped_pages evs)"
        using fe(3,5) r(5) nz by (simp add: evs_def)
      moreover have "valid_mmuflags f \<longrightarrow>
          mset (list_frees (mem s') False (map snd (list_writes evs)))
            = mset (map snd (list_writes evs)) + mset (mapped_pages evs)"
        using fe(3) r(6) pg5 nz l2_pages_cong [of "mem s'" p "mem s5" 0, OF mp]
        by (simp add: evs_def slot_frees_def)
      moreover have "\<forall>t. t \<notin> set (pool s) \<longrightarrow> mem s' t = mem s t"
      proof (intro allI impI)
        fix t
        assume t: "t \<notin> set (pool s)"
        then have "t \<noteq> p" "t \<notin> set (pool ?s6)"
          using pool p1 by simp_all
        then show "mem s' t = mem s t"
          using r(7) fr5 by simp
      qed
      moreover have "ok \<longleftrightarrow> 0 \<notin> set (allocs evs)"
        using r(8) fe(8) True nz by (simp add: evs_def)
      ultimately show ?thesis
        by blast
    qed
  qed
qed

section \<open>Tearing down what \<open>arm_addrenv_create_region\<close> built\<close>

lemma list_frees_keep: "0 \<notin> set l \<Longrightarrow> list_frees m True l = l"
  by (induction l) (simp_all add: slot_frees_def)

lemma null_list_replicate: "\<forall>x\<in>set l. x = (0::uintptr_t) \<Longrightarrow> l = replicate (length l) 0"
  by (induction l) simp_all

lemma create_region_effect:
  assumes "length list = unat listlen" and "\<forall>x\<in>set list. x = 0"
    and "distinct (pool s)" and "\<forall>p\<in>set (pool s). p \<noteq> 0 \<and> MM_ISALIGNED p"
    and "log s = []"
  shows "\<exists>rv list' s'. create_region list listlen vaddr regionsize f s = Inr (rv, list', s')
     \<and> list' = map snd (list_writes (log s'))
                @ replicate (length list - length (list_writes (log s'))) 0
     \<and> length (list_writes (log s')) \<le> length list
     \<and> 0 \<notin> set (map snd (list_writes (log s')))
     \<and> pool s = filter (\<lambda>p. p \<noteq> 0) (allocs (log s')) @ pool s'
     \<and> mset (filter (\<lambda>p. p \<noteq> 0) (allocs (log s')))
          = mset (map snd (list_writes (log s'))) + mset (mapped_pages (log s'))
     \<and> (valid_mmuflags f \<longrightarrow>
          mset (list_frees (mem s') False (map snd (list_writes (log s'))))
            = mset (map snd (list_writes (log s'))) + mset (mapped_pages (log s')))
     \<and> (rv = - ENOMEM \<longleftrightarrow> 0 \<in> set (allocs (log s')))"
proof (cases "push_bit (20 - MM_PGSHIFT) listlen < MM_NPAGES regionsize")
  case True
  then have "create_region list listlen vaddr regionsize f s = Inr (- E2BIG, list, s)"
    by (simp add: create_region_def)
  moreover have "list = replicate (length list) 0"
    using assms(2) by (rule null_list_replicate)
  ultimately show ?thesis
    using assms(5) by (simp add: E2BIG_def ENOMEM_def)
next
  case False
  let ?N = "(unat regionsize + 4095) div 4096"
  let ?nlist = "(?N + 255) div 256"
  have nl: "?nlist \<le> length list"
    using nlist_within_capacity(2) [OF False] assms(1) by simp
  from create_loop_pages [OF assms(3,4) nl, of f regionsize 0 0 vaddr]
  obtain ok list' s' evs where r:
    "create_loop list f regionsize ?nlist 0 0 vaddr s = Inr (ok, list', s')"
    "log s' = log s @ evs"
    "pool s = filter (\<lambda>p. p \<noteq> 0) (allocs evs) @ pool s'"
    "mset (filter (\<lambda>p. p \<noteq> 0) (allocs evs))
        = mset (map snd (list_writes evs)) + mset (mapped_pages evs)"
    "valid_mmuflags f \<longrightarrow>
       mset (list_frees (mem s') False (map snd (list_writes evs)))
         = mset (map snd (list_writes evs)) + mset (mapped_pages evs)"
    "ok \<longleftrightarrow> 0 \<notin> set (allocs evs)"
    by blast
  have lg: "log s' = evs"
    using r(2) assms(5) by simp
  from create_loop_order [OF r(1)]
  obtain e2 where e2: "log s' = log s @ e2"
    "list' = take 0 list @ map snd (list_writes e2) @ drop (0 + length (list_writes e2)) list"
    "0 + length (list_writes e2) \<le> max 0 (length list)"
    "0 \<notin> set (map snd (list_writes e2))"
    by blast
  have e2': "e2 = evs"
    using e2(1) lg assms(5) by simp
  have "drop (length (list_writes evs)) list
      = replicate (length list - length (list_writes evs)) 0"
    using null_list_replicate [OF assms(2)] by (metis drop_replicate)
  then have l': "list' = map snd (list_writes evs) @ replicate (length list - length (list_writes evs)) 0"
    using e2(2) e2' by simp
  have cr: "create_region list listlen vaddr regionsize f s
      = Inr (if ok then int ?N else - ENOMEM, list', s')"
    using False r(1) by (simp add: create_region_def Let_def unat_nlist sint_MM_NPAGES)
  have "(if ok then int ?N else - ENOMEM) = - ENOMEM \<longleftrightarrow> 0 \<in> set (allocs evs)"
    using r(6) by (simp add: ENOMEM_def)
  then show ?thesis
    using cr l' e2(3,4) e2' r(3,4,5) lg by simp
qed

text \<open>
  C3. Take a fresh (all-null) table list of \<open>listlen\<close> slots, valid flags, and a page source
  that hands out distinct page frames. Whenever the page source returns the null sentinel
  during a \<open>create_region\<close> call, the call returns \<open>-ENOMEM\<close>, and a following
  \<open>destroy_region\<close> on the same table list with \<open>keep = false\<close> returns without a fault,
  leaves every slot null and frees exactly the pages the call was granted: the data pages
  it mapped and the leaf-table pages it stored in the list, each once.
\<close>

theorem create_region_exhaustion_cleanup:
  assumes "length list = unat listlen" and "unat listlen \<le> INT_MAX" and "\<forall>x\<in>set list. x = 0"
    and "valid_mmuflags mmuflags"
    and "distinct (pool s)" and "\<forall>p\<in>set (pool s). p \<noteq> 0 \<and> MM_ISALIGNED p"
    and "log s = []"
  shows "\<exists>rv list' s'. create_region list listlen vaddr regionsize mmuflags s = Inr (rv, list', s')
     \<and> (0 \<in> set (allocs (log s')) \<longrightarrow>
          rv = - ENOMEM
        \<and> (\<exists>s''. destroy_region list' listlen vaddr False (s'\<lparr>log := []\<rparr>)
                    = Inr (replicate (length list) 0, s'')
              \<and> mset (frees (log s''))
                   = mset (mapped_pages (log s')) + mset (map snd (list_writes (log s')))
              \<and> mset (frees (log s'')) = mset (filter (\<lambda>p. p \<noteq> 0) (allocs (log s')))))"
proof -
  from create_region_effect [OF assms(1,3,5,6,7), of vaddr regionsize mmuflags]
  obtain rv list' s' where r:
    "create_region list listlen vaddr regionsize mmuflags s = Inr (rv, list', s')"
    "list' = map snd (list_writes (log s'))
                @ replicate (length list - length (list_writes (log s'))) 0"
    "length (list_writes (log s')) \<le> length list"
    "mset (filter (\<lambda>p. p \<noteq> 0) (allocs (log s')))
          = mset (map snd (list_writes (log s'))) + mset (mapped_pages (log s'))"
    "mset (list_frees (mem s') False (map snd (list_writes (log s'))))
            = mset (map snd (list_writes (log s'))) + mset (mapped_pages (log s'))"
    "rv = - ENOMEM \<longleftrightarrow> 0 \<in> set (allocs (log s'))"
    using assms(4) by blast
  have len: "length list' = unat listlen"
    using r(3) assms(1) by (subst r(2)) simp
  from destroy_loop_effect [OF len assms(2), of 0 False vaddr "s'\<lparr>log := []\<rparr>"]
  obtain s'' where d:
    "destroy_region list' listlen vaddr False (s'\<lparr>log := []\<rparr>) = Inr (replicate (length list') 0, s'')"
    "frees (log s'') = list_frees (mem s') False list'"
    unfolding destroy_region_def by auto
  have "list_frees (mem s') False list' = list_frees (mem s') False (map snd (list_writes (log s')))"
    by (subst r(2)) simp
  then have "mset (frees (log s''))
      = mset (mapped_pages (log s')) + mset (map snd (list_writes (log s')))"
    using d(2) r(5) by simp
  then show ?thesis
    using r(1,4,6) d(1) len assms(1) by auto
qed

theorem create_region_exhaustion_cleanup_witness:
  "\<exists>rv list' s'. create_region [0, 0] 2 0x40000000 12288 0x3f
        \<lparr>pool = [0x1000, 0x2000], mem = (\<lambda>_ _. 0), log = []\<rparr> = Inr (rv, list', s')
     \<and> 0 \<in> set (allocs (log s')) \<and> rv = - ENOMEM \<and> list' = [0x1000, 0]
     \<and> (\<exists>s''. destroy_region list' 2 0x40000000 False (s'\<lparr>log := []\<rparr>) = Inr ([0, 0], s'')
           \<and> mset (frees (log s'')) = mset [0x2000, 0x1000])"
proof -
  from create_region_exhaustion_cleanup [of "[0, 0]" 2 "0x3f"
      "\<lparr>pool = [0x1000, 0x2000], mem = (\<lambda>_ _. 0), log = []\<rparr>" "0x40000000" 12288]
  obtain rv list' s' where r:
    "create_region [0, 0] 2 0x40000000 12288 0x3f
        \<lparr>pool = [0x1000, 0x2000], mem = (\<lambda>_ _. 0), log = []\<rparr> = Inr (rv, list', s')"
    and imp: "0 \<in> set (allocs (log s')) \<longrightarrow>
          rv = - ENOMEM
        \<and> (\<exists>s''. destroy_region list' 2 0x40000000 False (s'\<lparr>log := []\<rparr>)
                    = Inr (replicate (length [0, 0 :: uintptr_t]) 0, s'')
              \<and> mset (frees (log s''))
                   = mset (mapped_pages (log s')) + mset (map snd (list_writes (log s')))
              \<and> mset (frees (log s'')) = mset (filter (\<lambda>p. p \<noteq> 0) (allocs (log s'))))"
    by (auto simp: INT_MAX_def valid_mmuflags_def PTE_SMALL_PADDR_MASK_def MM_ISALIGNED_def
        MM_PGMASK_def)
  have lg: "log s' = [PgAlloc 0x1000, ListWrite 0 0x1000, EnterCritical, Memset 0x1000,
      PgAlloc 0x2000, SetL2Entry 0x1000 0x2000 0x40000000 0x3f, PgAlloc 0, LeaveCritical]"
    and l': "list' = [0x1000, 0]"
    using r by (auto simp: run_create_region)
  show ?thesis
    using r imp l' by (auto simp: lg)
qed

text \<open>
  C5. After a successful \<open>create_region\<close> on a fresh (all-null) table list, with a page
  source that hands out distinct page frames, \<open>destroy_region\<close> on the same table list with
  \<open>keep = true\<close> returns without a fault, frees the leaf-table pages of the call (each
  once, in slot order) and nothing else, so none of the mapped data pages, leaves the
  leaf tables' contents as they are and resets every slot of the table list to null.
\<close>

theorem destroy_region_keep_pages:
  assumes "length list = unat listlen" and "unat listlen \<le> INT_MAX" and "\<forall>x\<in>set list. x = 0"
    and "distinct (pool s)" and "\<forall>p\<in>set (pool s). p \<noteq> 0 \<and> MM_ISALIGNED p"
    and "log s = []"
    and "create_region list listlen vaddr regionsize mmuflags s = Inr (rv, list', s')"
    and "0 \<le> rv"
  shows "\<exists>s''. destroy_region list' listlen vaddr True (s'\<lparr>log := []\<rparr>)
              = Inr (replicate (length list) 0, s'')
     \<and> frees (log s'') = map snd (list_writes (log s'))
     \<and> set (frees (log s'')) \<inter> set (mapped_pages (log s')) = {}
     \<and> mem s'' = mem s'"
proof -
  from create_region_effect [OF assms(1,3,4,5,6), of vaddr regionsize mmuflags] assms(7)
  have r:
    "list' = map snd (list_writes (log s'))
                @ replicate (length list - length (list_writes (log s'))) 0"
    "length (list_writes (log s')) \<le> length list"
    "0 \<notin> set (map snd (list_writes (log s')))"
    "pool s = filter (\<lambda>p. p \<noteq> 0) (allocs (log s')) @ pool s'"
    "mset (filter (\<lambda>p. p \<noteq> 0) (allocs (log s')))
          = mset (map snd (list_writes (log s'))) + mset (mapped_pages (log s'))"
    by auto
  have len: "length list' = unat listlen"
    using r(2) assms(1) by (subst r(1)) simp
  from destroy_loop_effect [OF len assms(2), of 0 True vaddr "s'\<lparr>log := []\<rparr>"]
  obtain s'' where d:
    "destroy_region list' listlen vaddr True (s'\<lparr>log := []\<rparr>) = Inr (replicate (length list') 0, s'')"
    "frees (log s'') = list_frees (mem s') True list'"
    "mem s'' = mem s'"
    unfolding destroy_region_def by auto
  have "list_frees (mem s') True list' = list_frees (mem s') True (map snd (list_writes (log s')))"
    by (subst r(1)) simp
  then have fr: "frees (log s'') = map snd (list_writes (log s'))"
    using d(2) r(3) by (simp add: list_frees_keep)
  have "distinct (filter (\<lambda>p. p \<noteq> 0) (allocs (log s')))"
    using assms(4) r(4) by (metis distinct_append)
  moreover have "mset (map snd (list_writes (log s')) @ mapped_pages (log s'))
      = mset (filter (\<lambda>p. p \<noteq> 0) (allocs (log s')))"
    using r(5) by simp
  ultimately have "distinct (map snd (list_writes (log s')) @ mapped_pages (log s'))"
    by (metis mset_eq_imp_distinct_iff)
  then have "set (map snd (list_writes (log s'))) \<inter> set (mapped_pages (log s')) = {}"
    by simp
  then show ?thesis
    using d(1,3) fr len assms(1) by auto
qed

theorem destroy_region_keep_pages_witness:
  "\<exists>s''. destroy_region
       (fst (snd (projr (create_region [0, 0] 2 0x40000000 4096 0x3f
          \<lparr>pool = [0x1000, 0x2000], mem = (\<lambda>_ _. 0), log = []\<rparr>)))) 2 0x40000000 True
       ((snd (snd (projr (create_region [0, 0] 2 0x40000000 4096 0x3f
          \<lparr>pool = [0x1000, 0x2000], mem = (\<lambda>_ _. 0), log = []\<rparr>))))\<lparr>log := []\<rparr>)
     = Inr ([0, 0], s'')
   \<and> frees (log s'') = [0x1000]"
proof -
  let ?X = "create_region [0, 0] 2 0x40000000 4096 0x3f
          \<lparr>pool = [0x1000, 0x2000], mem = (\<lambda>_ _. 0), log = []\<rparr>"
  have x: "?X = Inr (fst (projr ?X), fst (snd (projr ?X)), snd (snd (projr ?X)))"
    and rv: "0 \<le> fst (projr ?X)"
    and lw: "list_writes (log (snd (snd (projr ?X)))) = [(0, 0x1000)]"
    by (simp_all add: run_create_region)
  from destroy_region_keep_pages [of "[0, 0]" 2 _ "0x40000000" 4096 "0x3f", OF _ _ _ _ _ _ x rv]
  show ?thesis
    by (auto simp: INT_MAX_def MM_ISALIGNED_def MM_PGMASK_def lw)
qed

end
